theory Spec2Isabelle
  imports Main "HOL-Library.Sublist"
begin

section \<open>Strings and the heading pattern of \<open>pages/index.tsx\<close>\<close>

text \<open>
  A tip is a JavaScript string. It is modelled as a \<^typ>\<open>string\<close>, each \<^typ>\<open>char\<close> standing
  for the code unit of the same number; the model therefore covers the strings whose code
  units are all below 256. On that range the classes of the ECMAScript pattern language are:
  \<^item> \<open>\d\<close>: the ten digits;
  \<^item> \<open>\s\<close>: white space and line terminators, that is the code units 9, 10, 11, 12, 13,
    32 and 160;
  \<^item> \<open>.\<close> (the pattern has no \<open>s\<close> flag): everything but the line terminators 10 and 13.
\<close>

definition isDigit :: "char \<Rightarrow> bool" where
  "isDigit c \<longleftrightarrow> c \<in> set ''0123456789''"

definition isLineTerminator :: "char \<Rightarrow> bool" where
  "isLineTerminator c \<longleftrightarrow> c = CHR 0x0A \<or> c = CHR 0x0D"

definition isSpace :: "char \<Rightarrow> bool" where
  "isSpace c \<longleftrightarrow>
     c = CHR 0x09 \<or> c = CHR 0x0B \<or> c = CHR 0x0C \<or> c = CHR '' '' \<or> c = CHR 0xA0 \<or>
     isLineTerminator c"

text \<open>\<open>tip.startsWith('## ')\<close>\<close>

definition startsWith :: "string \<Rightarrow> string \<Rightarrow> bool" where
  "startsWith s p \<longleftrightarrow> take (length p) s = p"

subsection \<open>A backtracking matcher\<close>

text \<open>
  The fragment of the pattern language that the heading pattern uses: one character
  (a literal, \<open>\d\<close>, \<open>\s\<close> or \<open>.\<close>), concatenation, a quantified term with its minimum,
  its maximum (\<open>None\<close> for no bound) and its greediness, a capturing group with its
  number, and the assertion \<open>$\<close>. A non-capturing group \<open>(?:r)\<close> is \<open>r\<close> itself.
\<close>

datatype cclass = Lit char | Digit | Space | AnyChar

fun accepts :: "cclass \<Rightarrow> char \<Rightarrow> bool" where
  "accepts (Lit a) c \<longleftrightarrow> c = a"
| "accepts Digit c \<longleftrightarrow> isDigit c"
| "accepts Space c \<longleftrightarrow> isSpace c"
| "accepts AnyChar c \<longleftrightarrow> \<not> isLineTerminator c"

datatype regex =
    Atom cclass
  | Cat regex regex
  | Repeat regex nat "nat option" bool
  | Group nat regex
  | EndAnchor

text \<open>
  A match state is the input that is still unread together with the captures made so far
  (the most recent first).
\<close>

record mstate =
  unread :: string
  captures :: "(nat \<times> string) list"

fun rsize :: "regex \<Rightarrow> nat" where
  "rsize (Atom k) = 1"
| "rsize (Cat r1 r2) = Suc (rsize r1 + rsize r2)"
| "rsize (Repeat r mn mx g) = Suc (rsize r)"
| "rsize (Group n r) = Suc (rsize r)"
| "rsize EndAnchor = 1"

fun rmin :: "regex \<Rightarrow> nat" where
  "rmin (Repeat r mn mx g) = mn"
| "rmin r = 0"

text \<open>
  \<open>matches r x\<close> lists the states in which a match of \<open>r\<close> started in \<open>x\<close> can end, in the
  order in which a backtracking matcher tries them: the head of the list is the match
  that the matcher returns, and the list is empty when it fails. The equation for
  \<open>Repeat\<close> is the RepeatMatcher of the language standard: no iteration when the maximum
  is 0; an iteration that is no longer required and consumed nothing is rejected; a
  required iteration comes first; otherwise a greedy quantifier tries one more iteration
  before stopping, and a lazy one stops before trying one more. The matcher only moves
  forward, so an iteration consumed nothing exactly when the unread input did not get
  shorter.
\<close>

function matches :: "regex \<Rightarrow> mstate \<Rightarrow> mstate list" where
  "matches (Atom k) x =
     (case unread x of
        [] \<Rightarrow> []
      | c # cs \<Rightarrow> if accepts k c then [x\<lparr>unread := cs\<rparr>] else [])"
| "matches (Cat r1 r2) x = concat (map (matches r2) (matches r1 x))"
| "matches (Group n r) x =
     map (\<lambda>y. y\<lparr>captures :=
                  (n, take (length (unread x) - length (unread y)) (unread x)) # captures y\<rparr>)
         (matches r x)"
| "matches EndAnchor x = (if unread x = [] then [x] else [])"
| "matches (Repeat r mn mx greedy) x =
     (if mx = Some 0 then [x]
      else
        let more = concat (map
              (\<lambda>y. if mn = 0 \<and> \<not> length (unread y) < length (unread x) then []
                   else matches (Repeat r (mn - 1) (map_option (\<lambda>k. k - 1) mx) greedy) y)
              (matches r x))
        in if mn \<noteq> 0 then more
           else if greedy then more @ [x]
           else x # more)"
  by pat_completeness auto
termination
  by (relation "measures [\<lambda>(r, x). rsize r, \<lambda>(r, x). rmin r, \<lambda>(r, x). length (unread x)]")
     auto

text \<open>
  \<open>str.match(re)\<close> for a pattern without the \<open>g\<close> flag: the match is tried at the start
  indices 0, 1, ... up to the length of the string, and the first index at which it
  succeeds wins. The result holds the matched text as entry 0 and the captures under their
  numbers; \<open>None\<close> is \<open>null\<close>.
\<close>

fun exec :: "regex \<Rightarrow> string \<Rightarrow> (nat \<times> string) list option" where
  "exec r [] =
     (case matches (Group 0 r) \<lparr>unread = [], captures = []\<rparr> of
        [] \<Rightarrow> None
      | y # ys \<Rightarrow> Some (captures y))"
| "exec r (c # cs) =
     (case matches (Group 0 r) \<lparr>unread = c # cs, captures = []\<rparr> of
        [] \<Rightarrow> exec r cs
      | y # ys \<Rightarrow> Some (captures y))"

text \<open>
  A sequence of terms, nested to the right. (The empty sequence, which the pattern does not
  use, is a term repeated zero times: it matches the empty string.)
\<close>

fun cats :: "regex list \<Rightarrow> regex" where
  "cats [] = Repeat EndAnchor 0 (Some 0) True"
| "cats [r] = r"
| "cats (r # rs) = Cat r (cats rs)"

text \<open>The pattern \<^verbatim>\<open>/## \d+\.\s*(.*?)(?:\s*\(.*\))?$/\<close>.\<close>

definition headingPattern :: regex where
  "headingPattern = cats
     [Atom (Lit (CHR ''#'')), Atom (Lit (CHR ''#'')), Atom (Lit (CHR '' '')),
      Repeat (Atom Digit) 1 None True,
      Atom (Lit (CHR ''.'')),
      Repeat (Atom Space) 0 None True,
      Group 1 (Repeat (Atom AnyChar) 0 None False),
      Repeat (cats [Repeat (Atom Space) 0 None True,
                    Atom (Lit (CHR ''('')),
                    Repeat (Atom AnyChar) 0 None True,
                    Atom (Lit (CHR '')''))])
             0 (Some 1) True,
      EndAnchor]"

section \<open>The tip categorizer: \<open>renderTipCards\<close>\<close>

text \<open>
  An object with string keys is an association list in the insertion order of its keys,
  the order in which \<open>Object.keys\<close> and \<open>Object.entries\<close> enumerate them. \<open>assign k v o\<close>
  is \<open>o[k] = v\<close>: the value of an existing key is replaced where it stands, a new key is
  added at the end.
\<close>

type_synonym 'v object = "(string \<times> 'v) list"

definition keys :: "'v object \<Rightarrow> string list" where
  "keys obj = map fst obj"

fun assign :: "string \<Rightarrow> 'v \<Rightarrow> 'v object \<Rightarrow> 'v object" where
  "assign k v [] = [(k, v)]"
| "assign k v ((k', v') # kvs) =
     (if k' = k then (k, v) # kvs else (k', v') # assign k v kvs)"

text \<open>The object literal \<open>categories\<close> of lines 55 to 61.\<close>

definition initialCategories :: "string list object" where
  "initialCategories =
     [(''Quick Wins'', []),
      (''Sustainable Living'', []),
      (''Transportation & Mobility'', []),
      (''Community & Social Impact'', []),
      (''Environmental Protection'', [])]"

text \<open>
  The variables of the categorizing pass. \<open>currentTips\<close> is a reference to an array:
  \<open>currentTips = []\<close> binds the variable to a fresh array and leaves the array that a
  bucket may still reference as it is, and \<open>currentTips.push(tip)\<close> changes the array
  that the bucket of the current category may share. In this record the arrays stand by
  their values: the push is followed at once by \<open>categories[currentCategory] = currentTips\<close>,
  and no other bucket shares the array. The subsection on arrays as references below
  writes the pass with a store of arrays, and \<open>references_agree\<close> proves that both give
  the same buckets.
\<close>

record cstate =
  categories :: "string list object"
  currentCategory :: string
  currentTips :: "string list"

definition initialState :: cstate where
  "initialState =
     \<lparr>categories = initialCategories, currentCategory = [], currentTips = []\<rparr>"

text \<open>
  Entry \<open>i\<close> of a match result. An entry that is \<open>undefined\<close> is read as the empty
  string: both are falsy, and \<open>currentCategory\<close> is only used behind the test of its
  truthiness.
\<close>

definition matchGroup :: "(nat \<times> string) list \<Rightarrow> nat \<Rightarrow> string" where
  "matchGroup m i = (case map_of m i of None \<Rightarrow> [] | Some v \<Rightarrow> v)"

text \<open>The callback of \<open>tips.forEach\<close>, lines 68 to 82.\<close>

definition organize :: "cstate \<Rightarrow> string \<Rightarrow> cstate" where
  "organize s tip =
     (if startsWith tip ''## '' then
        (case exec headingPattern tip of
           None \<Rightarrow> s
         | Some categoryMatch \<Rightarrow>
             s\<lparr>currentCategory := matchGroup categoryMatch 1, currentTips := []\<rparr>)
      else if currentCategory s \<noteq> [] \<and> currentCategory s \<in> set (keys (categories s)) then
        (let pushed = currentTips s @ [tip]
         in s\<lparr>currentTips := pushed,
               categories := assign (currentCategory s) pushed (categories s)\<rparr>)
      else s)"

definition categorize :: "string list \<Rightarrow> string list object" where
  "categorize tips = categories (foldl organize initialState tips)"

text \<open>
  \<open>getCategoryIcon\<close>. The icons are emoji, named here after their Unicode characters
  (U+26A1, U+1F33F, U+1F6B2, U+1F91D, U+1F30D, and U+1F331 for the default). The function
  is only called on the keys of \<open>categories\<close>; names that \<open>icons\<close> inherits from
  \<open>Object.prototype\<close> are outside this model.
\<close>

datatype icon = HighVoltage | Herb | Bicycle | Handshake | GlobeEuropeAfrica | Seedling

definition icons :: "icon object" where
  "icons =
     [(''Quick Wins'', HighVoltage),
      (''Sustainable Living'', Herb),
      (''Transportation & Mobility'', Bicycle),
      (''Community & Social Impact'', Handshake),
      (''Environmental Protection'', GlobeEuropeAfrica)]"

definition getCategoryIcon :: "string \<Rightarrow> icon" where
  "getCategoryIcon category =
     (case map_of icons category of None \<Rightarrow> Seedling | Some i \<Rightarrow> i)"

text \<open>\<open>categoryTips.join(sep)\<close>\<close>

fun join :: "string \<Rightarrow> string list \<Rightarrow> string" where
  "join sep [] = []"
| "join sep [x] = x"
| "join sep (x # xs) = x @ sep @ join sep xs"

text \<open>
  A card: the key of its column, the icon, the title, the text handed to the rich-text
  renderer, and the footer \<open>{count} sustainable {noun}\<close>.
\<close>

record card =
  cardKey :: string
  cardIcon :: icon
  cardTitle :: string
  cardMarkdown :: string
  footerCount :: nat
  footerNoun :: string

text \<open>
  The children of the row, lines 87 to 112: one per entry of \<open>categories\<close>, \<open>None\<close>
  for the value \<open>false\<close> that \<open>categoryTips.length > 0 && ...\<close> yields for an empty bucket
  and that is rendered as nothing. (The page calls \<open>renderTipCards\<close> only when \<open>tips\<close>
  is not empty, line 218; on the empty list it yields no card either.)
\<close>

definition renderCategory :: "string \<times> string list \<Rightarrow> card option" where
  "renderCategory entry =
     (case entry of (category, categoryTips) \<Rightarrow>
        if length categoryTips > 0 then
          Some \<lparr>cardKey = category,
                cardIcon = getCategoryIcon category,
                cardTitle = category,
                cardMarkdown = join [CHR 0x0A, CHR 0x0A] categoryTips,
                footerCount = length categoryTips,
                footerNoun = (if length categoryTips = 1 then ''tip'' else ''tips'')\<rparr>
        else None)"

definition renderTipCards :: "string list \<Rightarrow> card option list" where
  "renderTipCards tips = map renderCategory (categorize tips)"

text \<open>The cards that are rendered, in the order of the page.\<close>

definition renderedCards :: "string list \<Rightarrow> card list" where
  "renderedCards tips = List.map_filter id (renderTipCards tips)"

subsection \<open>The categorizing pass with arrays as references\<close>

text \<open>
  The same pass with every array in a store, under the address at which it was created.
  The object literal creates five arrays and line 65 a sixth; every \<open>currentTips = []\<close>
  creates one more. A bucket and \<open>currentTips\<close> hold addresses; \<open>push\<close> changes the
  store at the address of \<open>currentTips\<close>, for every holder of that address.
\<close>

record rstate =
  store :: "nat \<Rightarrow> string list"
  fresh :: nat
  categoriesR :: "nat object"
  currentCategoryR :: string
  currentTipsR :: nat

definition initialR :: rstate where
  "initialR =
     \<lparr>store = (\<lambda>a. []), fresh = 6,
      categoriesR =
        [(''Quick Wins'', 0),
         (''Sustainable Living'', 1),
         (''Transportation & Mobility'', 2),
         (''Community & Social Impact'', 3),
         (''Environmental Protection'', 4)],
      currentCategoryR = [], currentTipsR = 5\<rparr>"

definition organizeR :: "rstate \<Rightarrow> string \<Rightarrow> rstate" where
  "organizeR h tip =
     (if startsWith tip ''## '' then
        (case exec headingPattern tip of
           None \<Rightarrow> h
         | Some categoryMatch \<Rightarrow>
             h\<lparr>currentCategoryR := matchGroup categoryMatch 1,
               currentTipsR := fresh h,
               store := (store h)(fresh h := []),
               fresh := Suc (fresh h)\<rparr>)
      else if currentCategoryR h \<noteq> [] \<and> currentCategoryR h \<in> set (keys (categoriesR h)) then
        h\<lparr>store := (store h)(currentTipsR h := store h (currentTipsR h) @ [tip]),
          categoriesR := assign (currentCategoryR h) (currentTipsR h) (categoriesR h)\<rparr>
      else h)"

text \<open>The buckets and the variables as the values that the references lead to.\<close>

definition readCategories :: "rstate \<Rightarrow> string list object" where
  "readCategories h = map (\<lambda>entry. (fst entry, store h (snd entry))) (categoriesR h)"

definition readState :: "rstate \<Rightarrow> cstate" where
  "readState h =
     \<lparr>categories = readCategories h, currentCategory = currentCategoryR h,
      currentTips = store h (currentTipsR h)\<rparr>"

text \<open>
  The array of \<open>currentTips\<close> is shared with no bucket but that of the current category,
  and every address in use was created.
\<close>

definition unshared :: "rstate \<Rightarrow> bool" where
  "unshared h \<longleftrightarrow>
     distinct (keys (categoriesR h)) \<and> currentTipsR h < fresh h \<and>
     list_all (\<lambda>entry. snd entry < fresh h \<and>
                 (snd entry \<noteq> currentTipsR h \<or> fst entry = currentCategoryR h))
       (categoriesR h)"

subsection \<open>Notions used to state the properties of the categorizer\<close>

text \<open>The five category names, in the order of the object literal.\<close>

definition categoryNames :: "string list" where
  "categoryNames =
     [''Quick Wins'', ''Sustainable Living'', ''Transportation & Mobility'',
      ''Community & Social Impact'', ''Environmental Protection'']"

text \<open>The name that line 72 extracts from a line: \<open>categoryMatch[1]\<close>, when there is a match.\<close>

definition extractCategory :: "string \<Rightarrow> string option" where
  "extractCategory tip =
     (case exec headingPattern tip of
        None \<Rightarrow> None
      | Some categoryMatch \<Rightarrow> Some (matchGroup categoryMatch 1))"

text \<open>
  A line takes the first branch of the callback when it starts with the heading marker;
  it is a heading, one that sets the current category, when the pattern matches as well.
  All other lines are body lines.
\<close>

definition headingLike :: "string \<Rightarrow> bool" where
  "headingLike tip \<longleftrightarrow> startsWith tip ''## ''"

definition isHeading :: "string \<Rightarrow> bool" where
  "isHeading tip \<longleftrightarrow> headingLike tip \<and> extractCategory tip \<noteq> None"

definition headingOf :: "string \<Rightarrow> string \<Rightarrow> bool" where
  "headingOf c tip \<longleftrightarrow> headingLike tip \<and> extractCategory tip = Some c"

definition bodyLines :: "string list \<Rightarrow> string list" where
  "bodyLines ts = filter (\<lambda>t. \<not> headingLike t) ts"

text \<open>The test of line 77 on the current category.\<close>

definition recognized :: "cstate \<Rightarrow> bool" where
  "recognized s \<longleftrightarrow> currentCategory s \<noteq> [] \<and> currentCategory s \<in> set (keys (categories s))"

text \<open>The bucket of a category in an object: \<open>None\<close> when the object has no such key.\<close>

definition bucket :: "string list object \<Rightarrow> string \<Rightarrow> string list option" where
  "bucket obj c = map_of obj c"

section \<open>The request coordinator: \<open>handleSubmit\<close>\<close>

text \<open>The state of the page component, lines 18 to 22.\<close>

record page =
  location :: string
  habits :: string
  tips :: "string list"
  loading :: bool
  error :: "string option"

text \<open>
  What awaiting \<open>axios.post\<close> can give. The promise is rejected with a reason (no
  response, or a response whose status is not a success status, which axios rejects by
  default), or it is fulfilled with a response. Reading \<open>response.data.tips\<close> throws a
  \<open>TypeError\<close> when the response carries no data.
\<close>

datatype reason = NoResponse | BadStatus nat | TypeError

datatype outcome = Rejects reason | ResolvesWithoutData | Resolves "string list"

record request =
  url :: string
  bodyLocation :: string
  bodyHabits :: string

text \<open>
  One run of \<open>handleSubmit\<close>, lines 28 to 47, given the outcome of the request: the
  state of the page after the last state update, the requests that were issued, and what
  was passed to \<open>console.error\<close>.
\<close>

record submission =
  finalPage :: page
  issued :: "request list"
  logged :: "reason list"

definition handleSubmit :: "page \<Rightarrow> outcome \<Rightarrow> submission" where
  "handleSubmit p out =
     (let p1 = p\<lparr>loading := True\<rparr>;
          p2 = p1\<lparr>error := None\<rparr>;
          p3 = p2\<lparr>tips := []\<rparr>;
          post = \<lparr>url = ''http://localhost:5000/api/tips'',
                  bodyLocation = location p, bodyHabits = habits p\<rparr>;
          caught = (\<lambda>err. (p3\<lparr>error := Some ''Failed to generate tips. Please try again.''\<rparr>,
                           [err]));
          (p4, errs) =
            (case out of
               Resolves ts \<Rightarrow> (p3\<lparr>tips := ts\<rparr>, [])
             | ResolvesWithoutData \<Rightarrow> caught TypeError
             | Rejects err \<Rightarrow> caught err)
      in \<lparr>finalPage = p4\<lparr>loading := False\<rparr>, issued = [post], logged = errs\<rparr>)"

text \<open>The submit button is rendered with \<open>disabled={loading}\<close>, line 191.\<close>

definition submitDisabled :: "page \<Rightarrow> bool" where
  "submitDisabled p \<longleftrightarrow> loading p"

section \<open>Properties of the heading pattern\<close>

declare matches.simps [simp del]

lemma extract_quick_wins: "extractCategory ''## 1. Quick Wins'' = Some ''Quick Wins''"
  by code_simp

lemma extract_sustainable_living:
  "extractCategory ''## 2. Sustainable Living'' = Some ''Sustainable Living''"
  by code_simp

lemma extract_quick_wins_again: "extractCategory ''## 2. Quick Wins'' = Some ''Quick Wins''"
  by code_simp

lemma extract_no_ordinal: "extractCategory ''## Tips'' = None"
  by code_simp

lemma extract_environmental:
  "extractCategory ''## 1. Environmental Protection'' = Some ''Environmental Protection''"
  by code_simp

lemma extract_other: "extractCategory ''## 3. Other'' = Some ''Other''"
  by code_simp

subsection \<open>The matcher on the parts of the pattern\<close>

text \<open>A literal character, and the end of the input.\<close>

lemma matches_lit:
  "matches (Atom (Lit a)) x =
     (case unread x of [] \<Rightarrow> [] | c # cs \<Rightarrow> if c = a then [x\<lparr>unread := cs\<rparr>] else [])"
  by (simp add: matches.simps(1) split: list.splits)

lemma matches_cat_lit:
  "unread x = a # cs \<Longrightarrow> matches (Cat (Atom (Lit a)) r) x = matches r (x\<lparr>unread := cs\<rparr>)"
  by (simp add: matches.simps(1,2))

lemma matches_cat_lit_fails:
  "unread x = [] \<or> hd (unread x) \<noteq> a \<Longrightarrow> matches (Cat (Atom (Lit a)) r) x = []"
  by (cases "unread x") (auto simp: matches.simps(1,2))

lemma matches_end: "matches EndAnchor x = (if unread x = [] then [x] else [])"
  by (simp add: matches.simps(4))

lemma cat_first:
  assumes "matches r1 x = y # ys" and "matches r2 y = z # zs"
  shows "\<exists>zs'. matches (Cat r1 r2) x = z # zs'"
  by (simp add: matches.simps(2) assms)

lemma concat_map_skip:
  assumes "\<forall>a\<in>set as. f a = []"
  shows "concat (map f (as @ bs)) = concat (map f bs)"
  using assms by (induction as) simp_all

text \<open>
  A quantified character class, one step at a time: \<open>k*\<close>, \<open>k*?\<close> and \<open>k+\<close>. The
  optional group \<open>(?:r)?\<close> offers the matches of \<open>r\<close> that consumed something, then the
  state it started in.
\<close>

lemma matches_star_unfold:
  "matches (Repeat (Atom k) 0 None True) x =
     (case unread x of
        [] \<Rightarrow> [x]
      | c # cs \<Rightarrow>
          if accepts k c then matches (Repeat (Atom k) 0 None True) (x\<lparr>unread := cs\<rparr>) @ [x]
          else [x])"
  by (subst matches.simps(5)) (simp add: matches.simps(1) split: list.splits)

lemma matches_lazy_unfold:
  "matches (Repeat (Atom k) 0 None False) x =
     x # (case unread x of
            [] \<Rightarrow> []
          | c # cs \<Rightarrow>
              if accepts k c then matches (Repeat (Atom k) 0 None False) (x\<lparr>unread := cs\<rparr>)
              else [])"
  by (subst matches.simps(5)) (simp add: matches.simps(1) split: list.splits)

lemma matches_plus_unfold:
  "matches (Repeat (Atom k) (Suc 0) None True) x =
     (case unread x of
        [] \<Rightarrow> []
      | c # cs \<Rightarrow>
          if accepts k c then matches (Repeat (Atom k) 0 None True) (x\<lparr>unread := cs\<rparr>)
          else [])"
  by (subst matches.simps(5)) (simp add: matches.simps(1) split: list.splits)

lemma matches_optional:
  "matches (Repeat r 0 (Some (Suc 0)) True) x =
     filter (\<lambda>y. length (unread y) < length (unread x)) (matches r x) @ [x]"
proof -
  have "concat (map (\<lambda>y. if \<not> length (unread y) < length (unread x) then []
                          else matches (Repeat r 0 (Some 0) True) y) ys) =
        filter (\<lambda>y. length (unread y) < length (unread x)) ys" for ys
    by (induction ys) (simp_all add: matches.simps(5))
  then show ?thesis by (subst matches.simps(5)) (simp cong: if_cong)
qed

text \<open>
  On an input that starts with the characters \<open>u\<close> of the class, followed by \<open>v\<close> that
  does not start with one, the greedy quantifiers offer the states after each prefix of
  \<open>u\<close>, the longest first. The lazy quantifier offers them the shortest first.
\<close>

lemma matches_star:
  assumes "\<forall>c\<in>set u. accepts k c" and "v = [] \<or> \<not> accepts k (hd v)"
  shows "matches (Repeat (Atom k) 0 None True) (x\<lparr>unread := u @ v\<rparr>) =
         map (\<lambda>w. x\<lparr>unread := w @ v\<rparr>) (suffixes u)"
  using assms(1)
proof (induction u arbitrary: x)
  case Nil
  show ?case using assms(2)
    by (subst matches_star_unfold) (auto split: list.splits)
next
  case (Cons c u)
  have "matches (Repeat (Atom k) 0 None True) (x\<lparr>unread := (c # u) @ v\<rparr>) =
        matches (Repeat (Atom k) 0 None True) (x\<lparr>unread := u @ v\<rparr>) @
        [x\<lparr>unread := (c # u) @ v\<rparr>]"
    using Cons.prems by (subst matches_star_unfold) simp
  also have "matches (Repeat (Atom k) 0 None True) (x\<lparr>unread := u @ v\<rparr>) =
        map (\<lambda>w. x\<lparr>unread := w @ v\<rparr>) (suffixes u)"
    using Cons.prems by (intro Cons.IH) simp
  finally show ?case by simp
qed

lemma matches_lazy:
  assumes "\<forall>c\<in>set u. accepts k c"
  shows "matches (Repeat (Atom k) 0 None False) (x\<lparr>unread := u @ v\<rparr>) =
         map (\<lambda>i. x\<lparr>unread := drop i u @ v\<rparr>) [0..<length u] @
         matches (Repeat (Atom k) 0 None False) (x\<lparr>unread := v\<rparr>)"
  using assms
proof (induction u arbitrary: x)
  case Nil
  show ?case by simp
next
  case (Cons c u)
  have "matches (Repeat (Atom k) 0 None False) (x\<lparr>unread := (c # u) @ v\<rparr>) =
        x\<lparr>unread := (c # u) @ v\<rparr> #
        matches (Repeat (Atom k) 0 None False) (x\<lparr>unread := u @ v\<rparr>)"
    using Cons.prems by (subst matches_lazy_unfold) simp
  also have "matches (Repeat (Atom k) 0 None False) (x\<lparr>unread := u @ v\<rparr>) =
        map (\<lambda>i. x\<lparr>unread := drop i u @ v\<rparr>) [0..<length u] @
        matches (Repeat (Atom k) 0 None False) (x\<lparr>unread := v\<rparr>)"
    using Cons.prems by (intro Cons.IH) simp
  finally show ?case
    by (simp add: upt_conv_Cons map_Suc_upt [symmetric] del: upt_Suc)
qed

lemma matches_plus:
  assumes "accepts k c" and "\<forall>c\<in>set u. accepts k c" and "v = [] \<or> \<not> accepts k (hd v)"
  shows "matches (Repeat (Atom k) (Suc 0) None True) (x\<lparr>unread := c # u @ v\<rparr>) =
         map (\<lambda>w. x\<lparr>unread := w @ v\<rparr>) (suffixes u)"
  using assms(1) matches_star [OF assms(2,3), of x]
  by (subst matches_plus_unfold) simp

subsection \<open>The end of a heading: optional parenthetical and end of the input\<close>

lemma not_space_paren: "\<not> isSpace (CHR ''('')"
  by (simp add: isSpace_def isLineTerminator_def)

lemma not_digit_dot: "\<not> isDigit (CHR ''.'')"
  by (simp add: isDigit_def)

text \<open>
  The parenthetical does not match where the unread input starts with a text that has no
  opening parenthesis and whose last character is not white space.
\<close>

lemma parenthetical_no_match:
  assumes "unread y = w @ rest" and "w \<noteq> []" and "\<not> isSpace (last w)"
    and "CHR ''('' \<notin> set w"
  shows "matches (Cat (Repeat (Atom Space) 0 None True) (Cat (Atom (Lit (CHR ''(''))) r)) y = []"
proof -
  let ?u = "takeWhile isSpace w" and ?v = "dropWhile isSpace w"
  have v: "?v \<noteq> []"
  proof
    assume "?v = []"
    then have "\<forall>c\<in>set w. isSpace c" by (simp add: dropWhile_eq_Nil_conv)
    with assms(2,3) show False using last_in_set by blast
  qed
  then have hdv: "\<not> isSpace (hd ?v)" by (rule hd_dropWhile)
  have "hd ?v \<in> set w" using v by (metis hd_in_set set_dropWhileD)
  with assms(4) have paren: "hd ?v \<noteq> CHR ''(''" by auto
  have y: "y = y\<lparr>unread := ?u @ (?v @ rest)\<rparr>" using assms(1) by simp
  have sp: "matches (Repeat (Atom Space) 0 None True) (y\<lparr>unread := ?u @ (?v @ rest)\<rparr>) =
        map (\<lambda>w'. y\<lparr>unread := w' @ (?v @ rest)\<rparr>) (suffixes ?u)"
  proof (rule matches_star)
    show "\<forall>c\<in>set ?u. accepts Space c" by (auto dest: set_takeWhileD)
    show "?v @ rest = [] \<or> \<not> accepts Space (hd (?v @ rest))" using v hdv by simp
  qed
  have fail: "matches (Cat (Atom (Lit (CHR ''(''))) r) (y\<lparr>unread := w' @ (?v @ rest)\<rparr>) = []"
    if "w' \<in> set (suffixes ?u)" for w'
  proof (rule matches_cat_lit_fails)
    have "hd (w' @ ?v @ rest) \<noteq> CHR ''(''"
    proof (cases w')
      case Nil
      with v paren show ?thesis by simp
    next
      case (Cons c cs)
      from that have "set w' \<subseteq> set ?u" by (auto dest: set_mono_suffix)
      with Cons have "isSpace c" by (auto dest: set_takeWhileD)
      with Cons not_space_paren show ?thesis by auto
    qed
    then show "unread (y\<lparr>unread := w' @ ?v @ rest\<rparr>) = [] \<or>
        hd (unread (y\<lparr>unread := w' @ ?v @ rest\<rparr>)) \<noteq> CHR ''(''" by simp
  qed
  have "matches (Cat (Repeat (Atom Space) 0 None True) (Cat (Atom (Lit (CHR ''(''))) r))
          (y\<lparr>unread := ?u @ (?v @ rest)\<rparr>) = []"
    unfolding matches.simps(2) [of "Repeat (Atom Space) 0 None True"] sp
    using fail by (simp add: concat_eq_Nil_conv)
  with y show ?thesis by simp
qed

lemma tail_fails:
  assumes "unread y = w @ rest" and "w \<noteq> []" and "\<not> isSpace (last w)"
    and "CHR ''('' \<notin> set w"
  shows "matches (Cat (Repeat (Cat (Repeat (Atom Space) 0 None True)
                                  (Cat (Atom (Lit (CHR ''(''))) r))
                             0 (Some (Suc 0)) True) EndAnchor) y = []"
proof -
  let ?group = "Cat (Repeat (Atom Space) 0 None True) (Cat (Atom (Lit (CHR ''(''))) r)"
  have "matches ?group y = []" using assms by (rule parenthetical_no_match)
  then have "matches (Repeat ?group 0 (Some (Suc 0)) True) y = [y]"
    by (simp add: matches_optional)
  then show ?thesis
    using assms(1,2)
    by (simp add: matches.simps(2) [of "Repeat ?group 0 (Some (Suc 0)) True"] matches_end)
qed

text \<open>It is skipped at the end of the input, and it matches a parenthetical that ends the input.\<close>

lemma tail_matches_end:
  assumes "unread y = []"
  shows "matches (Cat (Repeat (Cat (Repeat (Atom Space) 0 None True)
                                  (Cat (Atom (Lit (CHR ''(''))) r))
                             0 (Some (Suc 0)) True) EndAnchor) y = [y]"
proof -
  let ?group = "Cat (Repeat (Atom Space) 0 None True) (Cat (Atom (Lit (CHR ''(''))) r)"
  have "matches (Repeat (Atom Space) 0 None True) y = [y]"
    using assms by (subst matches_star_unfold) simp
  then have "matches ?group y = []"
    using assms
    by (simp add: matches.simps(2) [of "Repeat (Atom Space) 0 None True"]
          matches_cat_lit_fails)
  then have "matches (Repeat ?group 0 (Some (Suc 0)) True) y = [y]"
    by (simp add: matches_optional)
  then show ?thesis
    using assms
    by (simp add: matches.simps(2) [of "Repeat ?group 0 (Some (Suc 0)) True"] matches_end)
qed

lemma tail_matches_parenthetical:
  assumes "unread y = ws' @ CHR ''('' # remark @ [CHR '')'']"
    and "\<forall>c\<in>set ws'. isSpace c" and "\<forall>c\<in>set remark. \<not> isLineTerminator c"
  shows "\<exists>zs. matches (Cat (Repeat (Cat (Repeat (Atom Space) 0 None True)
                  (Cat (Atom (Lit (CHR ''('')))
                     (Cat (Repeat (Atom AnyChar) 0 None True) (Atom (Lit (CHR '')''))))))
                0 (Some (Suc 0)) True) EndAnchor) y = y\<lparr>unread := []\<rparr> # zs"
proof -
  let ?inner = "Cat (Repeat (Atom AnyChar) 0 None True) (Atom (Lit (CHR '')'')))"
  let ?paren = "Cat (Atom (Lit (CHR ''(''))) ?inner"
  let ?group = "Cat (Repeat (Atom Space) 0 None True) ?paren"
  have y: "y = y\<lparr>unread := ws' @ (CHR ''('' # remark @ [CHR '')''])\<rparr>" using assms(1) by simp
  have sp: "matches (Repeat (Atom Space) 0 None True)
        (y\<lparr>unread := ws' @ (CHR ''('' # remark @ [CHR '')''])\<rparr>) =
      map (\<lambda>w. y\<lparr>unread := w @ (CHR ''('' # remark @ [CHR '')''])\<rparr>) (suffixes ws')"
    using assms(2) by (intro matches_star) (simp_all add: not_space_paren)
  obtain ss where ss: "suffixes ws' = [] # ss"
    using hd_suffixes [of ws'] by (cases "suffixes ws'") auto
  have dot: "matches (Repeat (Atom AnyChar) 0 None True) (y\<lparr>unread := (remark @ [CHR '')'']) @ []\<rparr>) =
      map (\<lambda>w. y\<lparr>unread := w @ []\<rparr>) (suffixes (remark @ [CHR '')'']))"
    using assms(3) by (intro matches_star) (auto simp: isLineTerminator_def)
  obtain ns where ns: "suffixes remark = [] # ns"
    using hd_suffixes [of remark] by (cases "suffixes remark") auto
  have inner: "\<exists>zs. matches ?inner (y\<lparr>unread := remark @ [CHR '')'']\<rparr>) = y\<lparr>unread := []\<rparr> # zs"
    using dot
    by (simp add: matches.simps(2) [of "Repeat (Atom AnyChar) 0 None True"] ns matches_lit)
  have paren: "matches ?paren (y\<lparr>unread := CHR ''('' # remark @ [CHR '')'']\<rparr>) =
      matches ?inner (y\<lparr>unread := remark @ [CHR '')'']\<rparr>)"
    by (simp add: matches_cat_lit)
  have "\<exists>zs. matches ?group (y\<lparr>unread := ws' @ (CHR ''('' # remark @ [CHR '')''])\<rparr>) =
      y\<lparr>unread := []\<rparr> # zs"
    unfolding matches.simps(2) [of "Repeat (Atom Space) 0 None True"] sp ss
    using inner paren by auto
  with y have "\<exists>zs. matches ?group y = y\<lparr>unread := []\<rparr> # zs" by simp
  then obtain zs where "matches ?group y = y\<lparr>unread := []\<rparr> # zs" ..
  then have "\<exists>zs. matches (Repeat ?group 0 (Some (Suc 0)) True) y = y\<lparr>unread := []\<rparr> # zs"
    using assms(1) by (simp add: matches_optional)
  then show ?thesis
    by (auto simp: matches.simps(2) [of "Repeat ?group 0 (Some (Suc 0)) True"] matches_end)
qed

subsection \<open>The first match on a heading of a known form\<close>

text \<open>
  The lazy capture group tries the prefixes of the name one after the other. After a proper
  prefix neither the parenthetical nor the end of the input matches, so the first match
  captures the whole name.
\<close>

lemma capture_first_match:
  assumes name: "name \<noteq> []" "\<not> isSpace (last name)" "CHR ''('' \<notin> set name"
      "\<forall>c\<in>set name. \<not> isLineTerminator c"
    and rest: "rest = [] \<or>
      (\<exists>ws' remark. rest = ws' @ CHR ''('' # remark @ [CHR '')''] \<and>
         (\<forall>c\<in>set ws'. isSpace c) \<and> (\<forall>c\<in>set remark. \<not> isLineTerminator c))"
  shows "\<exists>zs. matches
      (Cat (Group 1 (Repeat (Atom AnyChar) 0 None False))
         (Cat (Repeat (Cat (Repeat (Atom Space) 0 None True)
                  (Cat (Atom (Lit (CHR ''('')))
                     (Cat (Repeat (Atom AnyChar) 0 None True) (Atom (Lit (CHR '')''))))))
                0 (Some (Suc 0)) True) EndAnchor))
      \<lparr>unread = name @ rest, captures = []\<rparr> =
    \<lparr>unread = [], captures = [(1, name)]\<rparr> # zs"
proof -
  let ?lazy = "Repeat (Atom AnyChar) 0 None False"
  let ?K = "Cat (Repeat (Cat (Repeat (Atom Space) 0 None True)
                  (Cat (Atom (Lit (CHR ''('')))
                     (Cat (Repeat (Atom AnyChar) 0 None True) (Atom (Lit (CHR '')''))))))
                0 (Some (Suc 0)) True) EndAnchor"
  let ?x = "\<lparr>unread = name @ rest, captures = []\<rparr>"
  let ?g = "\<lambda>y. y\<lparr>captures :=
      (1::nat, take (length (unread ?x) - length (unread y)) (unread ?x)) # captures y\<rparr>"
  let ?short = "map (\<lambda>i. ?x\<lparr>unread := drop i name @ rest\<rparr>) [0..<length name]"
  have "matches ?lazy (?x\<lparr>unread := name @ rest\<rparr>) =
      ?short @ matches ?lazy (?x\<lparr>unread := rest\<rparr>)"
    using name(4) by (intro matches_lazy) simp
  moreover have "\<exists>more. matches ?lazy (?x\<lparr>unread := rest\<rparr>) = ?x\<lparr>unread := rest\<rparr> # more"
    by (subst matches_lazy_unfold) simp
  then obtain more where "matches ?lazy (?x\<lparr>unread := rest\<rparr>) = ?x\<lparr>unread := rest\<rparr> # more" ..
  ultimately have lazy: "matches ?lazy ?x = ?short @ (?x\<lparr>unread := rest\<rparr> # more)" by simp
  have fails: "\<forall>y\<in>set (map ?g ?short). matches ?K y = []"
  proof
    fix y assume "y \<in> set (map ?g ?short)"
    then obtain i where i: "i < length name" and y: "unread y = drop i name @ rest" by auto
    show "matches ?K y = []"
    proof (rule tail_fails [OF y])
      show "drop i name \<noteq> []" using i by simp
      show "\<not> isSpace (last (drop i name))" using i name(2) by simp
      show "CHR ''('' \<notin> set (drop i name)" using name(3) by (auto dest: in_set_dropD)
    qed
  qed
  have g: "?g (?x\<lparr>unread := rest\<rparr>) = \<lparr>unread = rest, captures = [(1, name)]\<rparr>" by simp
  have "\<exists>zs. matches ?K \<lparr>unread = rest, captures = [(1, name)]\<rparr> =
      \<lparr>unread = [], captures = [(1, name)]\<rparr> # zs"
    using rest
  proof
    assume "rest = []"
    then show ?thesis by (simp add: tail_matches_end)
  next
    assume "\<exists>ws' remark. rest = ws' @ CHR ''('' # remark @ [CHR '')''] \<and>
         (\<forall>c\<in>set ws'. isSpace c) \<and> (\<forall>c\<in>set remark. \<not> isLineTerminator c)"
    then obtain ws' remark where r: "rest = ws' @ CHR ''('' # remark @ [CHR '')'']"
      "\<forall>c\<in>set ws'. isSpace c" "\<forall>c\<in>set remark. \<not> isLineTerminator c" by blast
    have "unread \<lparr>unread = rest, captures = [(1::nat, name)]\<rparr> =
        ws' @ CHR ''('' # remark @ [CHR '')'']" using r(1) by simp
    from tail_matches_parenthetical [OF this r(2,3)] show ?thesis by simp
  qed
  then obtain zs where K: "matches ?K \<lparr>unread = rest, captures = [(1, name)]\<rparr> =
      \<lparr>unread = [], captures = [(1, name)]\<rparr> # zs" ..
  have "matches (Cat (Group 1 ?lazy) ?K) ?x =
      concat (map (matches ?K) (map ?g ?short @ (?g (?x\<lparr>unread := rest\<rparr>) # map ?g more)))"
    by (simp only: matches.simps(2) matches.simps(3) lazy map_append list.map)
  also have "\<dots> = concat (map (matches ?K) (?g (?x\<lparr>unread := rest\<rparr>) # map ?g more))"
    using fails by (rule concat_map_skip)
  also have "\<dots> = \<lparr>unread = [], captures = [(1, name)]\<rparr> #
      (zs @ concat (map (matches ?K) (map ?g more)))"
    by (simp only: g list.map concat.simps K append_Cons)
  finally show ?thesis by blast
qed

lemma heading_first_match:
  assumes ds: "ds \<noteq> []" "\<forall>d\<in>set ds. isDigit d"
    and ws: "\<forall>c\<in>set ws. isSpace c"
    and name: "name \<noteq> []" "\<not> isSpace (hd name)" "\<not> isSpace (last name)"
      "CHR ''('' \<notin> set name" "\<forall>c\<in>set name. \<not> isLineTerminator c"
    and rest: "rest = [] \<or>
      (\<exists>ws' remark. rest = ws' @ CHR ''('' # remark @ [CHR '')''] \<and>
         (\<forall>c\<in>set ws'. isSpace c) \<and> (\<forall>c\<in>set remark. \<not> isLineTerminator c))"
  shows "\<exists>zs. matches headingPattern
      \<lparr>unread = ''## '' @ ds @ ''.'' @ ws @ name @ rest, captures = []\<rparr> =
    \<lparr>unread = [], captures = [(1, name)]\<rparr> # zs"
proof -
  let ?R7 = "Cat (Group 1 (Repeat (Atom AnyChar) 0 None False))
         (Cat (Repeat (Cat (Repeat (Atom Space) 0 None True)
                  (Cat (Atom (Lit (CHR ''('')))
                     (Cat (Repeat (Atom AnyChar) 0 None True) (Atom (Lit (CHR '')''))))))
                0 (Some (Suc 0)) True) EndAnchor)"
  let ?R6 = "Cat (Repeat (Atom Space) 0 None True) ?R7"
  let ?R5 = "Cat (Atom (Lit (CHR ''.''))) ?R6"
  let ?R4 = "Cat (Repeat (Atom Digit) (Suc 0) None True) ?R5"
  let ?z = "\<lparr>unread = [], captures = [(1::nat, name)]\<rparr>"
  let ?x6 = "\<lparr>unread = name @ rest, captures = []\<rparr> :: mstate"
  let ?x5 = "\<lparr>unread = ws @ name @ rest, captures = []\<rparr> :: mstate"
  let ?x3 = "\<lparr>unread = ds @ ''.'' @ ws @ name @ rest, captures = []\<rparr> :: mstate"
  from capture_first_match [OF name(1,3,4,5) rest]
  obtain zs7 where m7: "matches ?R7 ?x6 = ?z # zs7" by blast
  \<comment> \<open>the separator\<close>
  have "matches (Repeat (Atom Space) 0 None True) (?x5\<lparr>unread := ws @ (name @ rest)\<rparr>) =
      map (\<lambda>w. ?x5\<lparr>unread := w @ (name @ rest)\<rparr>) (suffixes ws)"
    using ws name(1,2) by (intro matches_star) simp_all
  moreover obtain ss where "suffixes ws = [] # ss"
    using hd_suffixes [of ws] by (cases "suffixes ws") auto
  ultimately have "matches (Repeat (Atom Space) 0 None True) ?x5 =
      ?x6 # map (\<lambda>w. ?x5\<lparr>unread := w @ (name @ rest)\<rparr>) ss" by simp
  then have "\<exists>zs. matches ?R6 ?x5 = ?z # zs"
    using m7 by (rule cat_first)
  then obtain zs6 where m6: "matches ?R6 ?x5 = ?z # zs6" ..
  \<comment> \<open>the ordinal\<close>
  have m5: "matches ?R5 \<lparr>unread = ''.'' @ ws @ name @ rest, captures = []\<rparr> = ?z # zs6"
    using m6 by (simp add: matches_cat_lit)
  obtain d ds' where dd: "ds = d # ds'" using ds(1) by (cases ds) auto
  have "matches (Repeat (Atom Digit) (Suc 0) None True)
          (?x3\<lparr>unread := d # ds' @ (''.'' @ ws @ name @ rest)\<rparr>) =
      map (\<lambda>w. ?x3\<lparr>unread := w @ (''.'' @ ws @ name @ rest)\<rparr>) (suffixes ds')"
    using ds(2) dd by (intro matches_plus) (simp_all add: not_digit_dot)
  moreover obtain ss' where "suffixes ds' = [] # ss'"
    using hd_suffixes [of ds'] by (cases "suffixes ds'") auto
  ultimately have "matches (Repeat (Atom Digit) (Suc 0) None True) ?x3 =
      \<lparr>unread = ''.'' @ ws @ name @ rest, captures = []\<rparr> #
      map (\<lambda>w. ?x3\<lparr>unread := w @ (''.'' @ ws @ name @ rest)\<rparr>) ss'"
    using dd by simp
  then have "\<exists>zs. matches ?R4 ?x3 = ?z # zs"
    using m5 by (rule cat_first)
  then obtain zs4 where m4: "matches ?R4 ?x3 = ?z # zs4" ..
  \<comment> \<open>the heading marker\<close>
  have "matches headingPattern
      \<lparr>unread = ''## '' @ ds @ ''.'' @ ws @ name @ rest, captures = []\<rparr> = matches ?R4 ?x3"
    by (simp add: headingPattern_def matches_cat_lit)
  with m4 show ?thesis by simp
qed

lemma exec_heading:
  assumes "\<exists>zs. matches headingPattern \<lparr>unread = CHR ''#'' # cs, captures = []\<rparr> =
      \<lparr>unread = [], captures = [(1, name)]\<rparr> # zs"
  shows "extractCategory (CHR ''#'' # cs) = Some name"
proof -
  from assms obtain zs where "matches headingPattern \<lparr>unread = CHR ''#'' # cs, captures = []\<rparr> =
      \<lparr>unread = [], captures = [(1, name)]\<rparr> # zs" ..
  then show ?thesis
    by (simp add: extractCategory_def matches.simps(3) matchGroup_def)
qed

lemma known_names:
  assumes "name \<in> set categoryNames"
  shows "name \<noteq> []" "\<not> isSpace (hd name)" "\<not> isSpace (last name)"
      "CHR ''('' \<notin> set name" "\<forall>c\<in>set name. \<not> isLineTerminator c"
  using assms by (auto simp: categoryNames_def isSpace_def isLineTerminator_def)

text \<open>
  Claim C3, as stated, fails. The pattern discards the white space before the
  parenthetical, not the white space after it: the line \<open>## 1. Quick Wins (easy)\<close> followed
  by one space yields the name \<open>Quick Wins (easy)\<close> followed by the space, with the
  parenthetical. And \<open>.\<close> matches no line terminator: when the note contains a line feed,
  as in \<open>## 1. Quick Wins (a\<close>, line feed, \<open>b)\<close>, the pattern does not match at all and
  no name is extracted.
\<close>

theorem parenthetical_not_always_discarded:
  "extractCategory ''## 1. Quick Wins (easy) '' = Some ''Quick Wins (easy) '' \<and>
   extractCategory (''## 1. Quick Wins ('' @ ''a'' @ [CHR 0x0A] @ ''b'' @ '')'') = None"
  by code_simp

text \<open>
  Claim C3, amended. Let a line consist of the heading marker \<open>## \<close>, one or more digits,
  a period, any white space, one of the five category names, and then either nothing or
  any white space and a parenthetical note that ends the line and contains no line
  terminator. Then the name extraction yields exactly the category name: the marker, the
  ordinal and the white space after it are stripped, and the parenthetical is discarded
  together with the white space before it.
\<close>

theorem extraction_of_known_heading:
  assumes "ds \<noteq> []" and "\<forall>d\<in>set ds. isDigit d" and "\<forall>c\<in>set ws. isSpace c"
    and "name \<in> set categoryNames"
    and "rest = [] \<or>
      (\<exists>ws' remark. rest = ws' @ ''('' @ remark @ '')'' \<and>
         (\<forall>c\<in>set ws'. isSpace c) \<and> (\<forall>c\<in>set remark. \<not> isLineTerminator c))"
  shows "extractCategory (''## '' @ ds @ ''.'' @ ws @ name @ rest) = Some name"
proof -
  from assms(5) have r: "rest = [] \<or>
      (\<exists>ws' remark. rest = ws' @ CHR ''('' # remark @ [CHR '')''] \<and>
         (\<forall>c\<in>set ws'. isSpace c) \<and> (\<forall>c\<in>set remark. \<not> isLineTerminator c))" by simp
  from heading_first_match [OF assms(1,2,3) known_names [OF assms(4)] r]
  have "\<exists>zs. matches headingPattern
      \<lparr>unread = CHR ''#'' # ''# '' @ ds @ ''.'' @ ws @ name @ rest, captures = []\<rparr> =
    \<lparr>unread = [], captures = [(1, name)]\<rparr> # zs" by simp
  from exec_heading [OF this] show ?thesis by simp
qed

theorem extraction_of_known_heading_witness:
  "''12'' \<noteq> [] \<and> isDigit (CHR ''1'') \<and> isDigit (CHR ''2'') \<and> isSpace (CHR '' '') \<and>
   ''Quick Wins'' \<in> set categoryNames \<and>
   '' (easy)'' = '' '' @ ''('' @ ''easy'' @ '')'' \<and>
   \<not> isLineTerminator (CHR ''e'') \<and> \<not> isLineTerminator (CHR ''a'') \<and>
   \<not> isLineTerminator (CHR ''s'') \<and> \<not> isLineTerminator (CHR ''y'') \<and>
   extractCategory ''## 12. Quick Wins (easy)'' = Some ''Quick Wins'' \<and>
   extractCategory ''## 12. Quick Wins'' = Some ''Quick Wins''"
proof -
  have d: "''12'' \<noteq> []" "\<forall>d\<in>set ''12''. isDigit d" by (simp_all add: isDigit_def)
  have s: "\<forall>c\<in>set '' ''. isSpace c" by (simp add: isSpace_def)
  have n: "''Quick Wins'' \<in> set categoryNames" by (simp add: categoryNames_def)
  have "'' (easy)'' = '' '' @ ''('' @ ''easy'' @ '')'' \<and>
      (\<forall>c\<in>set '' ''. isSpace c) \<and> (\<forall>c\<in>set ''easy''. \<not> isLineTerminator c)"
    by (simp add: isSpace_def isLineTerminator_def)
  then have r: "'' (easy)'' = [] \<or>
      (\<exists>ws' remark. '' (easy)'' = ws' @ ''('' @ remark @ '')'' \<and>
         (\<forall>c\<in>set ws'. isSpace c) \<and> (\<forall>c\<in>set remark. \<not> isLineTerminator c))"
    by blast
  have r': "[] = [] \<or>
      (\<exists>ws' remark. [] = ws' @ ''('' @ remark @ '')'' \<and>
         (\<forall>c\<in>set ws'. isSpace c) \<and> (\<forall>c\<in>set remark. \<not> isLineTerminator c))"
    by simp
  from extraction_of_known_heading [OF d s n r] extraction_of_known_heading [OF d s n r']
  show ?thesis
    by (simp add: isDigit_def isSpace_def isLineTerminator_def categoryNames_def)
qed

subsection \<open>The matcher only moves forward\<close>

text \<open>
  Every state that a match can end in has a suffix of the input it started with still
  unread. So the test in the equation of \<open>Repeat\<close>, that the unread input did not get
  shorter, holds exactly when the iteration ended where it started.
\<close>

lemma matches_suffix: "y \<in> set (matches r x) \<Longrightarrow> suffix (unread y) (unread x)"
proof (induction r x arbitrary: y rule: matches.induct)
  case (1 k x)
  then show ?case
    by (cases "unread x") (auto simp: matches.simps(1) suffix_Cons split: if_splits)
next
  case (2 r1 r2 x)
  from "2.prems" obtain z where z: "z \<in> set (matches r1 x)" "y \<in> set (matches r2 z)"
    by (auto simp: matches.simps(2))
  from "2.IH"(1) [OF z(1)] "2.IH"(2) [OF z] show ?case by (rule suffix_order.trans [rotated])
next
  case (3 n r x)
  then show ?case by (auto simp: matches.simps(3))
next
  case (4 x)
  then show ?case by (auto simp: matches.simps(4) split: if_splits)
next
  case (5 r mn mx greedy x)
  show ?case
  proof (cases "mx = Some 0")
    case True
    with "5.prems" show ?thesis by (simp add: matches.simps(5))
  next
    case False
    from "5.prems" False consider "y = x"
      | z where "z \<in> set (matches r x)"
          "\<not> (mn = 0 \<and> \<not> length (unread z) < length (unread x))"
          "y \<in> set (matches (Repeat r (mn - 1) (map_option (\<lambda>k. k - 1) mx) greedy) z)"
      by (subst (asm) matches.simps(5)) (auto simp: Let_def split: if_splits)
    then show ?thesis
    proof cases
      case 1
      then show ?thesis by simp
    next
      case 2
      from "5.IH"(1) [OF False 2(1)] "5.IH"(2) [OF False 2(1) 2(2) 2(3)]
      show ?thesis by (rule suffix_order.trans [rotated])
    qed
  qed
qed

lemma no_progress_iff:
  assumes "y \<in> set (matches r x)"
  shows "\<not> length (unread y) < length (unread x) \<longleftrightarrow> unread y = unread x"
  using matches_suffix [OF assms] by (auto simp: suffix_def)

section \<open>Properties of the categorizer\<close>

subsection \<open>The four ways through the callback\<close>

lemma organize_heading:
  "headingLike tip \<Longrightarrow> extractCategory tip = Some c \<Longrightarrow>
   organize s tip = s\<lparr>currentCategory := c, currentTips := []\<rparr>"
  by (auto simp: organize_def headingLike_def extractCategory_def split: option.splits)

lemma organize_ignored:
  "headingLike tip \<Longrightarrow> extractCategory tip = None \<Longrightarrow> organize s tip = s"
  by (auto simp: organize_def headingLike_def extractCategory_def split: option.splits)

lemma organize_body:
  "\<not> headingLike tip \<Longrightarrow> recognized s \<Longrightarrow>
   organize s tip =
     s\<lparr>currentTips := currentTips s @ [tip],
       categories := assign (currentCategory s) (currentTips s @ [tip]) (categories s)\<rparr>"
  by (simp add: organize_def headingLike_def recognized_def Let_def)

lemma organize_dropped:
  "\<not> headingLike tip \<Longrightarrow> \<not> recognized s \<Longrightarrow> organize s tip = s"
  by (auto simp: organize_def headingLike_def recognized_def)

subsection \<open>Objects and their keys\<close>

lemma keys_assign: "k \<in> set (keys obj) \<Longrightarrow> keys (assign k v obj) = keys obj"
  by (induction obj) (force simp: keys_def)+

lemma map_of_assign: "map_of (assign k v obj) = (map_of obj)(k \<mapsto> v)"
  by (induction obj) auto

lemma assign_assign: "assign k v (assign k w obj) = assign k v obj"
  by (induction obj) auto

lemma keys_organize: "keys (categories (organize s tip)) = keys (categories s)"
  by (simp add: organize_def keys_assign Let_def split: option.splits)

lemma keys_foldl: "keys (categories (foldl organize s ts)) = keys (categories s)"
  by (induction ts arbitrary: s) (simp_all add: keys_organize)

lemma keys_categorize: "keys (categorize ts) = categoryNames"
  by (simp add: categorize_def keys_foldl initialState_def)
     (simp add: keys_def initialCategories_def categoryNames_def)

lemma distinct_categoryNames: "distinct categoryNames"
  by (simp add: categoryNames_def)

lemma bucket_key:
  assumes "bucket (categorize ts) c = Some b"
  shows "c \<in> set categoryNames"
proof -
  have "fst ` set (categorize ts) = set categoryNames"
    using keys_categorize [of ts] by (simp add: keys_def flip: set_map)
  moreover have "c \<in> fst ` set (categorize ts)"
    using assms by (auto simp: bucket_def dest: map_of_SomeD intro: rev_image_eqI)
  ultimately show ?thesis by simp
qed

text \<open>The body lines of a list of lines.\<close>

lemma bodyLines_append: "bodyLines (xs @ ys) = bodyLines xs @ bodyLines ys"
  by (simp add: bodyLines_def)

lemma bodyLines_single: "bodyLines [t] = (if headingLike t then [] else [t])"
  by (simp add: bodyLines_def)

subsection \<open>The lines between two headings\<close>

text \<open>
  Under a recognized current category the lines up to the next heading are pushed one by
  one; the bucket is assigned with the first push, not with the heading.
\<close>

lemma foldl_segment:
  assumes "recognized s" and "\<forall>t\<in>set body. \<not> isHeading t"
  shows "foldl organize s body =
     (if bodyLines body = [] then s
      else s\<lparr>currentTips := currentTips s @ bodyLines body,
             categories := assign (currentCategory s) (currentTips s @ bodyLines body)
                             (categories s)\<rparr>)"
  using assms
proof (induction body arbitrary: s)
  case Nil
  show ?case by (simp add: bodyLines_def)
next
  case (Cons t body)
  show ?case
  proof (cases "headingLike t")
    case True
    with Cons.prems have "extractCategory t = None" by (simp add: isHeading_def)
    with True have "organize s t = s" by (rule organize_ignored)
    with Cons True show ?thesis by (simp add: bodyLines_def)
  next
    case False
    let ?s' = "s\<lparr>currentTips := currentTips s @ [t],
                 categories := assign (currentCategory s) (currentTips s @ [t]) (categories s)\<rparr>"
    have step: "organize s t = ?s'" using False Cons.prems(1) by (rule organize_body)
    have rec: "recognized ?s'" using Cons.prems(1) by (simp add: recognized_def keys_assign)
    have "\<forall>t\<in>set body. \<not> isHeading t" using Cons.prems(2) by simp
    from Cons.IH [OF rec this] show ?thesis using False step
      by (simp add: bodyLines_def assign_assign)
  qed
qed

text \<open>Under a current category that is not recognized these lines change nothing.\<close>

lemma foldl_unrecognized:
  assumes "\<not> recognized s" and "\<forall>t\<in>set body. \<not> isHeading t"
  shows "foldl organize s body = s"
  using assms
proof (induction body)
  case Nil
  show ?case by simp
next
  case (Cons t body)
  have "organize s t = s"
  proof (cases "headingLike t")
    case True
    with Cons.prems have "extractCategory t = None" by (simp add: isHeading_def)
    with True show ?thesis by (rule organize_ignored)
  next
    case False
    then show ?thesis using Cons.prems(1) by (rule organize_dropped)
  qed
  with Cons show ?case by simp
qed

text \<open>
  A category that is neither the current one nor named by a later heading keeps its bucket.
\<close>

lemma organize_other_category:
  assumes "\<not> headingOf c t" and "currentCategory s \<noteq> c"
  shows "currentCategory (organize s t) \<noteq> c \<and>
         bucket (categories (organize s t)) c = bucket (categories s) c"
  using assms
  by (auto simp: organize_def headingOf_def headingLike_def extractCategory_def bucket_def
        map_of_assign Let_def split: option.splits)

lemma foldl_other_category:
  assumes "\<forall>t\<in>set ts. \<not> headingOf c t" and "currentCategory s \<noteq> c"
  shows "bucket (categories (foldl organize s ts)) c = bucket (categories s) c"
  using assms
proof (induction ts arbitrary: s)
  case Nil
  show ?case by simp
next
  case (Cons t ts)
  have "\<not> headingOf c t" using Cons.prems(1) by simp
  from organize_other_category [OF this Cons.prems(2)] Cons.IH [of "organize s t"] Cons.prems(1)
  show ?case by simp
qed

lemma foldl_rest_other:
  assumes "rest = [] \<or> isHeading (hd rest)" and "\<forall>t\<in>set rest. \<not> headingOf c t"
  shows "bucket (categories (foldl organize s rest)) c = bucket (categories s) c"
proof (cases rest)
  case Nil
  then show ?thesis by simp
next
  case (Cons h' rest')
  with assms(1) have hl: "headingLike h'" and "extractCategory h' \<noteq> None"
    by (simp_all add: isHeading_def)
  then obtain c' where c': "extractCategory h' = Some c'" by auto
  have "\<not> headingOf c h'" using assms(2) Cons by simp
  with hl c' have "c' \<noteq> c" by (auto simp: headingOf_def)
  have step: "organize s h' = s\<lparr>currentCategory := c', currentTips := []\<rparr>"
    using hl c' by (rule organize_heading)
  have "\<forall>t\<in>set rest'. \<not> headingOf c t" using assms(2) Cons by simp
  from foldl_other_category [OF this, of "organize s h'"] step \<open>c' \<noteq> c\<close>
  show ?thesis using Cons by simp
qed

text \<open>
  The bucket of a category after the last heading that names it: the body lines that
  follow this heading up to the next heading, when there are any; the bucket as it was
  before this heading, when there are none.
\<close>

lemma bucket_after_heading:
  assumes h: "headingOf c h"
    and body: "\<forall>t\<in>set body. \<not> isHeading t"
    and rest: "rest = [] \<or> isHeading (hd rest)" "\<forall>t\<in>set rest. \<not> headingOf c t"
  shows "bucket (categorize (pre @ h # body @ rest)) c =
     (if c \<in> set categoryNames \<and> bodyLines body \<noteq> [] then Some (bodyLines body)
      else bucket (categorize pre) c)"
proof -
  let ?s1 = "foldl organize initialState pre"
  let ?s2 = "?s1\<lparr>currentCategory := c, currentTips := []\<rparr>"
  let ?s3 = "foldl organize ?s2 body"
  have keys1: "keys (categories ?s1) = categoryNames"
    using keys_categorize [of pre] by (simp add: categorize_def)
  have nonempty: "c \<in> set categoryNames \<Longrightarrow> c \<noteq> []"
    by (auto simp: categoryNames_def)
  have step: "organize ?s1 h = ?s2"
    using h by (simp add: headingOf_def organize_heading)
  have final: "bucket (categorize (pre @ h # body @ rest)) c = bucket (categories ?s3) c"
    using foldl_rest_other [OF rest, of ?s3] by (simp add: categorize_def step)
  show ?thesis
  proof (cases "c \<in> set categoryNames")
    case True
    then have "recognized ?s2" using keys1 nonempty by (simp add: recognized_def)
    from foldl_segment [OF this body] final True show ?thesis
      by (simp add: bucket_def map_of_assign categorize_def)
  next
    case False
    then have "\<not> recognized ?s2" using keys1 by (simp add: recognized_def)
    from foldl_unrecognized [OF this body] final False show ?thesis
      by (simp add: categorize_def)
  qed
qed

subsection \<open>The shape of the state after any input\<close>

text \<open>
  After any input, the accumulator of a recognized current category holds the body lines
  since the heading that made it current, and every bucket is empty or holds the body
  lines that follow one heading of its category up to the next heading.
\<close>

lemma state_shape:
  fixes ts :: "string list"
  defines "s \<equiv> foldl organize initialState ts"
  shows "(recognized s \<longrightarrow>
            (\<exists>pre h body. ts = pre @ h # body \<and> headingOf (currentCategory s) h \<and>
               (\<forall>t\<in>set body. \<not> isHeading t) \<and> currentTips s = bodyLines body)) \<and>
         (\<forall>c b. bucket (categories s) c = Some b \<longrightarrow> b = [] \<or>
            (\<exists>pre h body rest. ts = pre @ h # body @ rest \<and> headingOf c h \<and>
               (\<forall>t\<in>set body. \<not> isHeading t) \<and> b = bodyLines body))"
  unfolding s_def
proof (induction ts rule: rev_induct)
  case Nil
  show ?case
    by (auto simp: initialState_def recognized_def bucket_def initialCategories_def
          split: if_splits)
next
  case (snoc t ts)
  let ?s = "foldl organize initialState ts"
  let ?B = "\<lambda>ts c b. b = [] \<or>
            (\<exists>pre h body rest. ts = pre @ h # body @ rest \<and> headingOf c h \<and>
               (\<forall>t\<in>set body. \<not> isHeading t) \<and> b = bodyLines body)"
  have cur: "recognized ?s \<Longrightarrow>
      \<exists>pre h body. ts = pre @ h # body \<and> headingOf (currentCategory ?s) h \<and>
        (\<forall>t\<in>set body. \<not> isHeading t) \<and> currentTips ?s = bodyLines body"
    using snoc.IH by blast
  have old: "\<And>c b. bucket (categories ?s) c = Some b \<Longrightarrow> ?B ts c b"
    using snoc.IH by blast
  have ext: "\<And>c b. ?B ts c b \<Longrightarrow> ?B (ts @ [t]) c b"
  proof -
    fix c b assume "?B ts c b"
    then show "?B (ts @ [t]) c b"
    proof
      assume "b = []" then show ?thesis by simp
    next
      assume "\<exists>pre h body rest. ts = pre @ h # body @ rest \<and> headingOf c h \<and>
               (\<forall>t\<in>set body. \<not> isHeading t) \<and> b = bodyLines body"
      then obtain pre h body rest where "ts = pre @ h # body @ rest" "headingOf c h"
        "\<forall>t\<in>set body. \<not> isHeading t" "b = bodyLines body" by blast
      then have "ts @ [t] = pre @ h # body @ (rest @ [t]) \<and> headingOf c h \<and>
               (\<forall>t\<in>set body. \<not> isHeading t) \<and> b = bodyLines body" by simp
      then show ?thesis by blast
    qed
  qed
  consider (heading) c' where "headingLike t" "extractCategory t = Some c'"
    | (ignored) "headingLike t" "extractCategory t = None"
    | (pushed) "\<not> headingLike t" "recognized ?s"
    | (dropped) "\<not> headingLike t" "\<not> recognized ?s"
    by (cases "extractCategory t") auto
  then show ?case
  proof cases
    case heading
    then have step: "organize ?s t = ?s\<lparr>currentCategory := c', currentTips := []\<rparr>"
      by (rule organize_heading)
    have "ts @ [t] = ts @ t # [] \<and> headingOf c' t \<and> (\<forall>t\<in>set []. \<not> isHeading t) \<and>
          [] = bodyLines []"
      using heading by (simp add: headingOf_def bodyLines_def)
    then have "\<exists>pre h body. ts @ [t] = pre @ h # body \<and> headingOf c' h \<and>
        (\<forall>t\<in>set body. \<not> isHeading t) \<and> [] = bodyLines body" by blast
    with old ext show ?thesis by (simp add: step)
  next
    case ignored
    then have step: "organize ?s t = ?s" by (rule organize_ignored)
    have nh: "\<not> isHeading t" using ignored by (simp add: isHeading_def)
    have "recognized ?s \<Longrightarrow>
      \<exists>pre h body. ts @ [t] = pre @ h # body \<and> headingOf (currentCategory ?s) h \<and>
        (\<forall>t\<in>set body. \<not> isHeading t) \<and> currentTips ?s = bodyLines body"
    proof -
      assume "recognized ?s"
      from cur [OF this] obtain pre h body where "ts = pre @ h # body"
        "headingOf (currentCategory ?s) h" "\<forall>t\<in>set body. \<not> isHeading t"
        "currentTips ?s = bodyLines body" by blast
      then have "ts @ [t] = pre @ h # (body @ [t]) \<and> headingOf (currentCategory ?s) h \<and>
        (\<forall>t\<in>set (body @ [t]). \<not> isHeading t) \<and> currentTips ?s = bodyLines (body @ [t])"
        using nh ignored(1) by (simp add: bodyLines_append bodyLines_single)
      then show ?thesis by blast
    qed
    with old ext show ?thesis by (simp add: step)
  next
    case pushed
    let ?c = "currentCategory ?s"
    have step: "organize ?s t = ?s\<lparr>currentTips := currentTips ?s @ [t],
        categories := assign ?c (currentTips ?s @ [t]) (categories ?s)\<rparr>"
      using pushed by (rule organize_body)
    have nh: "\<not> isHeading t" using pushed(1) by (simp add: isHeading_def)
    from cur [OF pushed(2)] obtain pre h body where d: "ts = pre @ h # body"
      "headingOf ?c h" "\<forall>t\<in>set body. \<not> isHeading t"
      "currentTips ?s = bodyLines body" by blast
    have n1: "ts @ [t] = pre @ h # (body @ [t])" using d(1) by simp
    have n3: "\<forall>t\<in>set (body @ [t]). \<not> isHeading t" using d(3) nh by simp
    have n4: "currentTips ?s @ [t] = bodyLines (body @ [t])"
      using d(4) pushed(1) by (simp add: bodyLines_append bodyLines_single)
    have rec: "recognized (organize ?s t)"
      using pushed(2) by (simp add: step recognized_def keys_assign)
    have c1: "\<exists>pre h body. ts @ [t] = pre @ h # body \<and> headingOf ?c h \<and>
        (\<forall>t\<in>set body. \<not> isHeading t) \<and> currentTips ?s @ [t] = bodyLines body"
      using n1 d(2) n3 n4 by blast
    have n1': "ts @ [t] = pre @ h # (body @ [t]) @ []" using d(1) by simp
    have c2: "?B (ts @ [t]) ?c (currentTips ?s @ [t])"
      using n1' d(2) n3 n4 by blast
    have "\<And>c b. bucket (categories (organize ?s t)) c = Some b \<Longrightarrow> ?B (ts @ [t]) c b"
    proof -
      fix c b assume a: "bucket (categories (organize ?s t)) c = Some b"
      show "?B (ts @ [t]) c b"
      proof (cases "c = ?c")
        case True
        with a have "b = currentTips ?s @ [t]" by (simp add: step bucket_def map_of_assign)
        with c2 True show ?thesis by simp
      next
        case False
        with a have "bucket (categories ?s) c = Some b"
          by (simp add: step bucket_def map_of_assign)
        then show ?thesis by (intro ext old)
      qed
    qed
    with c1 show ?thesis by (simp add: step)
  next
    case dropped
    then have step: "organize ?s t = ?s" by (rule organize_dropped)
    with old ext dropped(2) show ?thesis by simp
  qed
qed

text \<open>The accumulator is empty or it is the bucket of the current category.\<close>

lemma current_bucket:
  fixes ts :: "string list"
  defines "s \<equiv> foldl organize initialState ts"
  shows "currentTips s = [] \<or>
         (recognized s \<and> bucket (categories s) (currentCategory s) = Some (currentTips s))"
  unfolding s_def
proof (induction ts rule: rev_induct)
  case Nil
  show ?case by (simp add: initialState_def)
next
  case (snoc t ts)
  let ?s = "foldl organize initialState ts"
  consider (heading) c' where "headingLike t" "extractCategory t = Some c'"
    | (ignored) "headingLike t" "extractCategory t = None"
    | (pushed) "\<not> headingLike t" "recognized ?s"
    | (dropped) "\<not> headingLike t" "\<not> recognized ?s"
    by (cases "extractCategory t") auto
  then show ?case
  proof cases
    case heading
    then show ?thesis by (simp add: organize_heading)
  next
    case ignored
    with snoc show ?thesis by (simp add: organize_ignored)
  next
    case pushed
    then show ?thesis
      by (simp add: organize_body recognized_def keys_assign bucket_def map_of_assign)
  next
    case dropped
    with snoc show ?thesis by (simp add: organize_dropped)
  qed
qed

lemma bucket_origin:
  assumes "bucket (categorize ts) c = Some b" and "x \<in> set b"
  shows "c \<in> set categoryNames \<and> \<not> headingLike x \<and>
         (\<exists>pre h mid post. ts = pre @ h # mid @ x # post \<and> headingOf c h \<and>
            (\<forall>t\<in>set mid. \<not> isHeading t))"
proof -
  have c: "c \<in> set categoryNames" using assms(1) by (rule bucket_key)
  from assms(2) have "b \<noteq> []" by auto
  with state_shape [of ts] assms(1) obtain pre h body rest
    where d: "ts = pre @ h # body @ rest" "headingOf c h" "\<forall>t\<in>set body. \<not> isHeading t"
      "b = bodyLines body"
    unfolding categorize_def by blast
  from assms(2) d(4) have x: "x \<in> set body" "\<not> headingLike x" by (simp_all add: bodyLines_def)
  then obtain mid post' where m: "body = mid @ x # post'" by (auto dest: split_list)
  have "ts = pre @ h # mid @ x # (post' @ rest)" using d(1) m by simp
  moreover have "\<forall>t\<in>set mid. \<not> isHeading t" using d(3) m by simp
  ultimately show ?thesis using c x(2) d(2) by blast
qed

lemma bucket_subseq:
  assumes "bucket (categorize ts) c = Some b"
  shows "subseq b ts"
proof (cases "b = []")
  case True
  then show ?thesis by simp
next
  case False
  with state_shape [of ts] assms obtain pre h body rest
    where d: "ts = pre @ h # body @ rest" "b = bodyLines body"
    unfolding categorize_def by blast
  have "subseq b body" unfolding d(2) bodyLines_def by (rule subseq_filter_left)
  then have "subseq b (body @ rest)" by (rule subseq_rev_drop_many)
  then have "subseq b ((pre @ [h]) @ body @ rest)" by (rule subseq_drop_many)
  then show ?thesis using d(1) by simp
qed

lemma bucket_step:
  assumes "bucket (categorize ts) c = Some b" and "bucket (categorize (ts @ [t])) c = Some b'"
  shows "b' = b \<or> b' = b @ [t] \<or>
         (b' = [t] \<and>
          (\<exists>pre h body. ts = pre @ h # body \<and> headingOf c h \<and>
             (\<forall>u\<in>set body. \<not> isHeading u) \<and> bodyLines body = []))"
proof -
  let ?s = "foldl organize initialState ts"
  have b: "bucket (categories ?s) c = Some b" using assms(1) by (simp add: categorize_def)
  have b': "bucket (categories (organize ?s t)) c = Some b'"
    using assms(2) by (simp add: categorize_def)
  consider (heading) c' where "headingLike t" "extractCategory t = Some c'"
    | (ignored) "headingLike t" "extractCategory t = None"
    | (pushed) "\<not> headingLike t" "recognized ?s"
    | (dropped) "\<not> headingLike t" "\<not> recognized ?s"
    by (cases "extractCategory t") auto
  then show ?thesis
  proof cases
    case heading
    with b b' show ?thesis by (simp add: organize_heading)
  next
    case ignored
    with b b' show ?thesis by (simp add: organize_ignored)
  next
    case dropped
    with b b' show ?thesis by (simp add: organize_dropped)
  next
    case pushed
    let ?c = "currentCategory ?s"
    have new: "bucket (categories (organize ?s t)) c =
        (if c = ?c then Some (currentTips ?s @ [t]) else bucket (categories ?s) c)"
      using pushed by (simp add: organize_body bucket_def map_of_assign)
    show ?thesis
    proof (cases "c = ?c")
      case False
      with new b b' show ?thesis by simp
    next
      case True
      with new b' have eq: "b' = currentTips ?s @ [t]" by simp
      from current_bucket [of ts] show ?thesis
      proof
        assume e: "currentTips ?s = []"
        from state_shape [of ts] pushed(2) obtain pre h body where d:
          "ts = pre @ h # body" "headingOf ?c h" "\<forall>u\<in>set body. \<not> isHeading u"
          "currentTips ?s = bodyLines body" by blast
        have "headingOf c h" using d(2) True by simp
        moreover have "bodyLines body = []" using d(4) e by simp
        ultimately have "\<exists>pre h body. ts = pre @ h # body \<and> headingOf c h \<and>
             (\<forall>u\<in>set body. \<not> isHeading u) \<and> bodyLines body = []"
          using d(1,3) by blast
        with eq e show ?thesis by simp
      next
        assume "recognized ?s \<and> bucket (categories ?s) ?c = Some (currentTips ?s)"
        with b True have "b = currentTips ?s" by simp
        with eq show ?thesis by simp
      qed
    qed
  qed
qed

text \<open>Lines before the first heading of a known category leave no trace.\<close>

lemma prefix_unrecognized:
  assumes "\<forall>t\<in>set pre. \<forall>c\<in>set categoryNames. \<not> headingOf c t"
  shows "categories (foldl organize initialState pre) = initialCategories \<and>
         currentTips (foldl organize initialState pre) = [] \<and>
         \<not> recognized (foldl organize initialState pre)"
  using assms
proof (induction pre rule: rev_induct)
  case Nil
  show ?case by (simp add: initialState_def recognized_def)
next
  case (snoc t pre)
  let ?s = "foldl organize initialState pre"
  from snoc have IH: "categories ?s = initialCategories" "currentTips ?s = []"
    "\<not> recognized ?s" by simp_all
  have keys: "keys initialCategories = categoryNames"
    by (simp add: keys_def initialCategories_def categoryNames_def)
  show ?case
  proof (cases "headingLike t")
    case False
    with IH show ?thesis by (simp add: organize_dropped)
  next
    case True
    show ?thesis
    proof (cases "extractCategory t")
      case None
      with True IH show ?thesis by (simp add: organize_ignored)
    next
      case (Some c')
      with True have "headingOf c' t" by (simp add: headingOf_def)
      with snoc.prems have "c' \<notin> set categoryNames" by auto
      with True Some IH keys show ?thesis
        by (simp add: organize_heading recognized_def)
    qed
  qed
qed

lemma foldl_same_categories:
  assumes "categories s = categories s'" and "currentTips s = currentTips s'"
    and "s = s' \<or> (\<not> recognized s \<and> \<not> recognized s')"
  shows "categories (foldl organize s ts) = categories (foldl organize s' ts)"
  using assms
proof (induction ts arbitrary: s s')
  case Nil
  then show ?case by simp
next
  case (Cons t ts)
  have "categories (organize s t) = categories (organize s' t) \<and>
        currentTips (organize s t) = currentTips (organize s' t) \<and>
        (organize s t = organize s' t \<or>
         (\<not> recognized (organize s t) \<and> \<not> recognized (organize s' t)))"
  proof (cases "s = s'")
    case True
    then show ?thesis by simp
  next
    case False
    with Cons.prems have nr: "\<not> recognized s" "\<not> recognized s'" by auto
    show ?thesis
    proof (cases "headingLike t")
      case False
      with nr have "organize s t = s" "organize s' t = s'" by (simp_all add: organize_dropped)
      with Cons.prems nr show ?thesis by simp
    next
      case True
      show ?thesis
      proof (cases "extractCategory t")
        case None
        with True have "organize s t = s" "organize s' t = s'"
          by (simp_all add: organize_ignored)
        with Cons.prems nr show ?thesis by simp
      next
        case (Some c')
        with True have st: "organize s t = s\<lparr>currentCategory := c', currentTips := []\<rparr>"
          "organize s' t = s'\<lparr>currentCategory := c', currentTips := []\<rparr>"
          by (simp_all add: organize_heading)
        show ?thesis using Cons.prems(1) by (simp add: st recognized_def)
      qed
    qed
  qed
  then have "categories (foldl organize (organize s t) ts) =
             categories (foldl organize (organize s' t) ts)"
    by (intro Cons.IH) simp_all
  then show ?case by simp
qed

lemma categorize_drop_prefix:
  assumes "\<forall>t\<in>set pre. \<forall>c\<in>set categoryNames. \<not> headingOf c t"
  shows "categorize (pre @ ts) = categorize ts"
proof -
  let ?u = "foldl organize initialState pre"
  have i: "categories initialState = initialCategories" "currentTips initialState = []"
    "\<not> recognized initialState"
    by (simp_all add: initialState_def recognized_def)
  from prefix_unrecognized [OF assms] i
  have "categories ?u = categories initialState" "currentTips ?u = currentTips initialState"
    "?u = initialState \<or> (\<not> recognized ?u \<and> \<not> recognized initialState)"
    by simp_all
  then have "categories (foldl organize ?u ts) = categories (foldl organize initialState ts)"
    by (rule foldl_same_categories)
  then show ?thesis by (simp add: categorize_def)
qed

text \<open>Nor do the lines under a heading whose name is not a known category.\<close>

lemma categorize_unknown_heading:
  assumes "headingOf c h" and "c \<notin> set categoryNames" and "\<forall>t\<in>set body. \<not> isHeading t"
  shows "categorize (pre @ h # body @ rest) = categorize (pre @ h # rest)"
proof -
  let ?s1 = "foldl organize initialState pre"
  let ?s2 = "?s1\<lparr>currentCategory := c, currentTips := []\<rparr>"
  have step: "organize ?s1 h = ?s2"
    using assms(1) by (simp add: headingOf_def organize_heading)
  have "keys (categories ?s1) = categoryNames"
    using keys_categorize [of pre] by (simp add: categorize_def)
  with assms(2) have "\<not> recognized ?s2" by (simp add: recognized_def)
  from foldl_unrecognized [OF this assms(3)] show ?thesis
    by (simp add: categorize_def step)
qed

subsection \<open>The titles of the rendered cards\<close>

lemma titles_of_rendered:
  "map cardTitle (List.map_filter id (map renderCategory obj)) =
   map fst (filter (\<lambda>entry. snd entry \<noteq> []) obj)"
  by (induction obj) (auto simp: List.map_filter_def renderCategory_def split: if_splits)

lemma filter_keys_distinct:
  "distinct (map fst obj) \<Longrightarrow>
   map fst (filter (\<lambda>entry. snd entry \<noteq> []) obj) =
   filter (\<lambda>c. \<exists>b. map_of obj c = Some b \<and> b \<noteq> []) (map fst obj)"
proof (induction obj)
  case Nil
  show ?case by simp
next
  case (Cons e obj)
  obtain k v where e: "e = (k, v)" by (cases e)
  from Cons.prems e have k: "k \<notin> fst ` set obj" by simp
  have "filter (\<lambda>c. \<exists>b. map_of (e # obj) c = Some b \<and> b \<noteq> []) (map fst obj) =
        filter (\<lambda>c. \<exists>b. map_of obj c = Some b \<and> b \<noteq> []) (map fst obj)"
    using k e by (intro filter_cong) auto
  with Cons e show ?case by simp
qed

lemma rendered_titles:
  "map cardTitle (renderedCards ts) =
   filter (\<lambda>c. \<exists>b. bucket (categorize ts) c = Some b \<and> b \<noteq> []) categoryNames"
proof -
  have d: "distinct (map fst (categorize ts))"
    using keys_categorize [of ts] distinct_categoryNames by (simp add: keys_def)
  show ?thesis
    unfolding renderedCards_def renderTipCards_def titles_of_rendered
      filter_keys_distinct [OF d] bucket_def
    using keys_categorize [of ts] by (simp add: keys_def)
qed

subsection \<open>Arrays as references\<close>

text \<open>
  The pass over the store of arrays and the pass over values go step by step together: the
  values read from the store after a step are those of the step on the values read before.
\<close>

lemma keys_read: "keys (readCategories h) = keys (categoriesR h)"
  by (simp add: readCategories_def keys_def comp_def)

lemma read_assign:
  assumes "distinct (map fst obj)"
    and "\<forall>e\<in>set obj. fst e \<noteq> k \<longrightarrow> f (snd e) = g (snd e)"
  shows "map (\<lambda>e. (fst e, f (snd e))) (assign k a obj) =
         assign k (f a) (map (\<lambda>e. (fst e, g (snd e))) obj)"
  using assms
proof (induction obj)
  case Nil
  show ?case by simp
next
  case (Cons e obj)
  show ?case
  proof (cases "fst e = k")
    case True
    with Cons.prems(1) have "\<forall>e'\<in>set obj. fst e' \<noteq> k" by (force simp: image_iff)
    with Cons.prems(2) have "map (\<lambda>e. (fst e, f (snd e))) obj = map (\<lambda>e. (fst e, g (snd e))) obj"
      by simp
    with True show ?thesis by (cases e) simp
  next
    case False
    with Cons show ?thesis by (cases e) simp
  qed
qed

lemma initial_read: "readState initialR = initialState" "unshared initialR"
  by (simp_all add: readState_def readCategories_def initialR_def initialState_def
        initialCategories_def unshared_def keys_def)

lemma organizeR_step:
  assumes "unshared h"
  shows "readState (organizeR h tip) = organize (readState h) tip \<and> unshared (organizeR h tip)"
proof (cases "startsWith tip ''## ''")
  case True
  show ?thesis
  proof (cases "exec headingPattern tip")
    case None
    with True assms show ?thesis by (simp add: organizeR_def organize_def)
  next
    case (Some m)
    have "\<forall>e\<in>set (categoriesR h). snd e \<noteq> fresh h"
      using assms by (auto simp: unshared_def list_all_iff)
    then have "readCategories (h\<lparr>currentCategoryR := matchGroup m 1, currentTipsR := fresh h,
        store := (store h)(fresh h := []), fresh := Suc (fresh h)\<rparr>) = readCategories h"
      by (simp add: readCategories_def)
    moreover have "unshared (h\<lparr>currentCategoryR := matchGroup m 1, currentTipsR := fresh h,
        store := (store h)(fresh h := []), fresh := Suc (fresh h)\<rparr>)"
      using assms by (auto simp: unshared_def list_all_iff)
    ultimately show ?thesis
      using True Some by (simp add: organizeR_def organize_def readState_def)
  qed
next
  case False
  show ?thesis
  proof (cases "currentCategoryR h \<noteq> [] \<and> currentCategoryR h \<in> set (keys (categoriesR h))")
    case no: False
    with False assms show ?thesis
      by (auto simp: organizeR_def organize_def readState_def keys_read)
  next
    case yes: True
    let ?a = "currentTipsR h" and ?c = "currentCategoryR h"
    let ?st = "(store h)(?a := store h ?a @ [tip])"
    let ?h' = "h\<lparr>store := ?st, categoriesR := assign ?c ?a (categoriesR h)\<rparr>"
    have step: "organizeR h tip = ?h'" using False yes by (simp add: organizeR_def)
    have d: "distinct (map fst (categoriesR h))" using assms by (simp add: unshared_def keys_def)
    have "\<forall>e\<in>set (categoriesR h). fst e \<noteq> ?c \<longrightarrow> ?st (snd e) = store h (snd e)"
      using assms by (auto simp: unshared_def list_all_iff)
    from read_assign [OF d this]
    have cats: "readCategories ?h' =
        assign ?c (store h ?a @ [tip]) (readCategories h)"
      by (simp add: readCategories_def)
    have 1: "readState ?h' = organize (readState h) tip"
      using False yes cats by (simp add: organize_def readState_def keys_read Let_def)
    have mem: "e \<in> set (assign k v obj) \<Longrightarrow> e = (k, v) \<or> e \<in> set obj" for e k v
      and obj :: "nat object"
      by (induction obj) (auto split: if_splits)
    have 2: "unshared ?h'"
      using assms yes
      by (auto simp: unshared_def list_all_iff keys_assign dest!: mem)
    from 1 2 step show ?thesis by simp
  qed
qed

lemma foldl_organizeR:
  assumes "unshared h"
  shows "readState (foldl organizeR h ts) = foldl organize (readState h) ts \<and>
         unshared (foldl organizeR h ts)"
  using assms
proof (induction ts arbitrary: h)
  case Nil
  then show ?case by simp
next
  case (Cons t ts)
  from organizeR_step [OF Cons.prems, of t] Cons.IH [of "organizeR h t"]
  show ?case by simp
qed

text \<open>Both passes end with the same buckets.\<close>

lemma references_agree:
  "readCategories (foldl organizeR initialR ts) = categorize ts"
proof -
  from foldl_organizeR [OF initial_read(2), of ts]
  have e: "readState (foldl organizeR initialR ts) = foldl organize initialState ts"
    by (simp add: initial_read(1))
  have "categories (readState (foldl organizeR initialR ts)) =
      readCategories (foldl organizeR initialR ts)"
    by (simp add: readState_def)
  with e show ?thesis by (simp add: categorize_def)
qed

subsection \<open>Some inputs evaluated\<close>

lemma heading_like_examples:
  "headingLike ''## 1. Quick Wins''" "headingLike ''## 2. Quick Wins''"
  "headingLike ''## 2. Sustainable Living''" "headingLike ''## Tips''"
  "headingLike ''## 1. Environmental Protection''"
  "\<not> headingLike ''a''" "\<not> headingLike ''b''" "\<not> headingLike ''stray''"
  by (simp_all add: headingLike_def startsWith_def)

lemmas organize_examples =
  organize_heading [OF heading_like_examples(1) extract_quick_wins]
  organize_heading [OF heading_like_examples(2) extract_quick_wins_again]
  organize_heading [OF heading_like_examples(3) extract_sustainable_living]
  organize_heading [OF heading_like_examples(5) extract_environmental]
  organize_ignored [OF heading_like_examples(4) extract_no_ordinal]
  organize_body [OF heading_like_examples(6)]
  organize_body [OF heading_like_examples(7)]
  organize_body [OF heading_like_examples(8)]
  organize_dropped [OF heading_like_examples(8)]

lemmas heading_examples =
  heading_like_examples extract_quick_wins extract_quick_wins_again
  extract_sustainable_living extract_no_ordinal extract_environmental

lemma example_repeated_heading:
  "categorize [''## 1. Quick Wins'', ''a'', ''## 2. Quick Wins''] =
     [(''Quick Wins'', [''a'']), (''Sustainable Living'', []),
      (''Transportation & Mobility'', []), (''Community & Social Impact'', []),
      (''Environmental Protection'', [])]"
  by (simp add: categorize_def initialState_def initialCategories_def recognized_def keys_def
        organize_examples)

lemma example_repeated_heading_body:
  "categorize [''## 1. Quick Wins'', ''a'', ''## 2. Quick Wins'', ''b''] =
     [(''Quick Wins'', [''b'']), (''Sustainable Living'', []),
      (''Transportation & Mobility'', []), (''Community & Social Impact'', []),
      (''Environmental Protection'', [])]"
  by (simp add: categorize_def initialState_def initialCategories_def recognized_def keys_def
        organize_examples)

lemma example_ignored_heading:
  "categorize [''## 1. Quick Wins'', ''a'', ''## Tips'', ''b''] =
     [(''Quick Wins'', [''a'', ''b'']), (''Sustainable Living'', []),
      (''Transportation & Mobility'', []), (''Community & Social Impact'', []),
      (''Environmental Protection'', [])]"
  by (simp add: categorize_def initialState_def initialCategories_def recognized_def keys_def
        organize_examples)

lemma example_stray_line:
  "categorize [''stray'', ''## 1. Quick Wins'', ''a''] =
     [(''Quick Wins'', [''a'']), (''Sustainable Living'', []),
      (''Transportation & Mobility'', []), (''Community & Social Impact'', []),
      (''Environmental Protection'', [])]"
  by (simp add: categorize_def initialState_def initialCategories_def recognized_def keys_def
        organize_examples)

lemma example_reverse_order:
  "categorize [''## 1. Environmental Protection'', ''b'', ''## 2. Quick Wins'', ''a''] =
     [(''Quick Wins'', [''a'']), (''Sustainable Living'', []),
      (''Transportation & Mobility'', []), (''Community & Social Impact'', []),
      (''Environmental Protection'', [''b''])]"
  by (simp add: categorize_def initialState_def initialCategories_def recognized_def keys_def
        organize_examples)

lemma extract_quick_wins_third: "extractCategory ''## 3. Quick Wins'' = Some ''Quick Wins''"
  by code_simp

lemma example_heading_three_times:
  "categorize [''## 1. Quick Wins'', ''a'', ''## 2. Quick Wins'', ''## 3. Quick Wins'', ''b''] =
     [(''Quick Wins'', [''b'']), (''Sustainable Living'', []),
      (''Transportation & Mobility'', []), (''Community & Social Impact'', []),
      (''Environmental Protection'', [])]"
proof -
  have h: "headingLike ''## 3. Quick Wins''" by (simp add: headingLike_def startsWith_def)
  show ?thesis
    by (simp add: categorize_def initialState_def initialCategories_def recognized_def keys_def
          organize_examples organize_heading [OF h extract_quick_wins_third])
qed

subsection \<open>The scenario of two headings with one line each\<close>

text \<open>
  Claim C5. For the four lines \<open>## 1. Quick Wins\<close>, \<open>Turn off lights\<close>,
  \<open>## 2. Sustainable Living\<close>, \<open>Compost food waste\<close> the buckets of Quick Wins and of
  Sustainable Living hold one line each, the other three are empty, and exactly two cards
  are rendered: Quick Wins with the text \<open>Turn off lights\<close> and Sustainable Living with
  the text \<open>Compost food waste\<close>, each with the footer of one tip.
\<close>

theorem scenario_two_cards:
  "categorize [''## 1. Quick Wins'', ''Turn off lights'',
               ''## 2. Sustainable Living'', ''Compost food waste''] =
     [(''Quick Wins'', [''Turn off lights'']),
      (''Sustainable Living'', [''Compost food waste'']),
      (''Transportation & Mobility'', []),
      (''Community & Social Impact'', []),
      (''Environmental Protection'', [])] \<and>
   renderedCards [''## 1. Quick Wins'', ''Turn off lights'',
                  ''## 2. Sustainable Living'', ''Compost food waste''] =
     [\<lparr>cardKey = ''Quick Wins'', cardIcon = HighVoltage, cardTitle = ''Quick Wins'',
        cardMarkdown = ''Turn off lights'', footerCount = 1, footerNoun = ''tip''\<rparr>,
      \<lparr>cardKey = ''Sustainable Living'', cardIcon = Herb, cardTitle = ''Sustainable Living'',
        cardMarkdown = ''Compost food waste'', footerCount = 1, footerNoun = ''tip''\<rparr>]"
proof -
  let ?ts = "[''## 1. Quick Wins'', ''Turn off lights'',
              ''## 2. Sustainable Living'', ''Compost food waste'']"
  have h1: "headingLike ''## 1. Quick Wins''" and h2: "headingLike ''## 2. Sustainable Living''"
    and b1: "\<not> headingLike ''Turn off lights''" and b2: "\<not> headingLike ''Compost food waste''"
    by (simp_all add: headingLike_def startsWith_def)
  have buckets: "categorize ?ts =
     [(''Quick Wins'', [''Turn off lights'']),
      (''Sustainable Living'', [''Compost food waste'']),
      (''Transportation & Mobility'', []),
      (''Community & Social Impact'', []),
      (''Environmental Protection'', [])]"
    by (simp add: categorize_def initialState_def initialCategories_def
          organize_heading [OF h1 extract_quick_wins]
          organize_heading [OF h2 extract_sustainable_living]
          organize_body [OF b1] organize_body [OF b2] recognized_def keys_def)
  have cards: "renderedCards ?ts =
     [\<lparr>cardKey = ''Quick Wins'', cardIcon = HighVoltage, cardTitle = ''Quick Wins'',
        cardMarkdown = ''Turn off lights'', footerCount = 1, footerNoun = ''tip''\<rparr>,
      \<lparr>cardKey = ''Sustainable Living'', cardIcon = Herb, cardTitle = ''Sustainable Living'',
        cardMarkdown = ''Compost food waste'', footerCount = 1, footerNoun = ''tip''\<rparr>]"
    unfolding renderedCards_def renderTipCards_def buckets
    by (simp add: renderCategory_def List.map_filter_def getCategoryIcon_def icons_def)
  from buckets cards show ?thesis by (rule conjI)
qed

subsection \<open>Repeated headings\<close>

text \<open>
  Claim C1, as stated, fails. After \<open>## 1. Quick Wins\<close>, \<open>a\<close>, \<open>## 2. Quick Wins\<close> the
  heading of Quick Wins has occurred a second time and no body line follows its last
  occurrence, yet the bucket of Quick Wins still holds the line \<open>a\<close> of the first
  occurrence: the heading resets the accumulator \<open>currentTips\<close>, not the bucket.
\<close>

theorem repeated_heading_keeps_earlier_lines:
  "headingOf ''Quick Wins'' ''## 2. Quick Wins'' \<and>
   categorize [''## 1. Quick Wins'', ''a'', ''## 2. Quick Wins''] =
     [(''Quick Wins'', [''a'']), (''Sustainable Living'', []),
      (''Transportation & Mobility'', []), (''Community & Social Impact'', []),
      (''Environmental Protection'', [])] \<and>
   bucket (categorize ([''## 1. Quick Wins'', ''a''] @ ''## 2. Quick Wins'' # [] @ []))
     ''Quick Wins'' \<noteq> Some (bodyLines [])"
  by (simp add: example_repeated_heading headingOf_def heading_examples bodyLines_def bucket_def)

text \<open>
  Claim C1, amended. Let a heading name a known category, let \<open>body\<close> be the lines that
  follow it up to the next heading or the end of the input, and let no later heading name
  the same category. When \<open>body\<close> has at least one body line, the final bucket of the
  category holds exactly the body lines of \<open>body\<close>, in their order, whatever was
  accumulated under earlier occurrences of the heading.
\<close>

theorem last_occurrence_with_body:
  assumes "headingOf c h" and "c \<in> set categoryNames"
    and "\<forall>t\<in>set body. \<not> isHeading t" and "bodyLines body \<noteq> []"
    and "rest = [] \<or> isHeading (hd rest)" and "\<forall>t\<in>set rest. \<not> headingOf c t"
  shows "bucket (categorize (pre @ h # body @ rest)) c = Some (bodyLines body)"
  using bucket_after_heading [OF assms(1,3,5,6), of pre] assms(2,4) by simp

theorem last_occurrence_with_body_witness:
  "headingOf ''Quick Wins'' ''## 2. Quick Wins'' \<and>
   ''Quick Wins'' \<in> set categoryNames \<and>
   \<not> isHeading ''b'' \<and> bodyLines [''b''] = [''b''] \<and>
   isHeading ''## 2. Sustainable Living'' \<and>
   \<not> headingOf ''Quick Wins'' ''## 2. Sustainable Living'' \<and>
   \<not> headingOf ''Quick Wins'' ''a'' \<and>
   bucket (categorize [''## 1. Quick Wins'', ''a'', ''## 2. Quick Wins'', ''b'',
                       ''## 2. Sustainable Living'', ''a'']) ''Quick Wins'' = Some [''b'']"
  using last_occurrence_with_body [of "''Quick Wins''" "''## 2. Quick Wins''" "[''b'']"
      "[''## 2. Sustainable Living'', ''a'']" "[''## 1. Quick Wins'', ''a'']"]
  by (simp add: headingOf_def isHeading_def bodyLines_def heading_examples categoryNames_def)

text \<open>
  Claim C9, as stated, fails. In \<open>## 1. Quick Wins\<close>, \<open>a\<close>, \<open>## 2. Quick Wins\<close>,
  \<open>## 3. Quick Wins\<close>, \<open>b\<close> the heading of Quick Wins re-occurs in the third line and
  no body line follows this occurrence before the next heading. Yet the final bucket of
  Quick Wins is \<open>b\<close> alone and no longer holds the line \<open>a\<close> of the first occurrence:
  a later heading of the same category, followed by a body line, has replaced the bucket.
\<close>

theorem later_occurrence_resets_bucket:
  "headingOf ''Quick Wins'' ''## 1. Quick Wins'' \<and>
   headingOf ''Quick Wins'' ''## 2. Quick Wins'' \<and>
   isHeading ''## 3. Quick Wins'' \<and>
   bucket (categorize [''## 1. Quick Wins'', ''a'']) ''Quick Wins'' = Some [''a''] \<and>
   categorize [''## 1. Quick Wins'', ''a'', ''## 2. Quick Wins'', ''## 3. Quick Wins'', ''b''] =
     [(''Quick Wins'', [''b'']), (''Sustainable Living'', []),
      (''Transportation & Mobility'', []), (''Community & Social Impact'', []),
      (''Environmental Protection'', [])] \<and>
   bucket (categorize ([''## 1. Quick Wins'', ''a''] @ ''## 2. Quick Wins'' # [] @
                       [''## 3. Quick Wins'', ''b''])) ''Quick Wins'' \<noteq>
     bucket (categorize [''## 1. Quick Wins'', ''a'']) ''Quick Wins''"
proof -
  have h: "headingLike ''## 3. Quick Wins''" by (simp add: headingLike_def startsWith_def)
  have e: "bucket (categorize [''## 1. Quick Wins'', ''a'']) ''Quick Wins'' = Some [''a'']"
    by (simp add: categorize_def initialState_def initialCategories_def recognized_def keys_def
          organize_examples bucket_def)
  show ?thesis
    by (simp add: e [unfolded bucket_def] example_heading_three_times headingOf_def isHeading_def heading_examples h
          extract_quick_wins_third bucket_def)
qed

text \<open>
  Claim C9, amended. Let a heading name a category, let only lines that start with the
  heading marker and do not match the pattern follow it up to the next heading or the end
  of the input, and let no later heading name the same category. Then the final bucket of
  the category is the bucket as it was before this heading. In particular, when the lines
  before it end with an occurrence of the same heading of a known category followed by
  lines with at least one body line, the final bucket still holds exactly those body
  lines.
\<close>

theorem repeated_heading_without_body:
  assumes "headingOf c h" and "\<forall>t\<in>set body. headingLike t \<and> \<not> isHeading t"
    and "rest = [] \<or> isHeading (hd rest)" and "\<forall>t\<in>set rest. \<not> headingOf c t"
  shows "bucket (categorize (pre @ h # body @ rest)) c = bucket (categorize pre) c \<and>
         (\<forall>pre0 h0 body0.
            pre = pre0 @ h0 # body0 \<and> headingOf c h0 \<and> c \<in> set categoryNames \<and>
            (\<forall>t\<in>set body0. \<not> isHeading t) \<and> bodyLines body0 \<noteq> [] \<longrightarrow>
            bucket (categorize (pre @ h # body @ rest)) c = Some (bodyLines body0))"
proof -
  have nb: "bodyLines body = []" using assms(2) by (simp add: bodyLines_def)
  have nh: "\<forall>t\<in>set body. \<not> isHeading t" using assms(2) by simp
  have same: "bucket (categorize (pre @ h # body @ rest)) c = bucket (categorize pre) c"
    using bucket_after_heading [OF assms(1) nh assms(3,4), of pre] nb by simp
  have "bucket (categorize (pre0 @ h0 # body0)) c = Some (bodyLines body0)"
    if "headingOf c h0" "c \<in> set categoryNames" "\<forall>t\<in>set body0. \<not> isHeading t"
      "bodyLines body0 \<noteq> []" for pre0 h0 body0
    using bucket_after_heading [of c h0 body0 "[]" pre0] that by simp
  with same show ?thesis by auto
qed

theorem repeated_heading_without_body_witness:
  "headingOf ''Quick Wins'' ''## 2. Quick Wins'' \<and>
   headingLike ''## Tips'' \<and> \<not> isHeading ''## Tips'' \<and>
   isHeading ''## 2. Sustainable Living'' \<and>
   \<not> headingOf ''Quick Wins'' ''## 2. Sustainable Living'' \<and>
   \<not> headingOf ''Quick Wins'' ''b'' \<and>
   headingOf ''Quick Wins'' ''## 1. Quick Wins'' \<and> ''Quick Wins'' \<in> set categoryNames \<and>
   \<not> isHeading ''a'' \<and> bodyLines [''a''] = [''a''] \<and>
   bucket (categorize [''## 1. Quick Wins'', ''a'', ''## 2. Quick Wins'', ''## Tips'',
                       ''## 2. Sustainable Living'', ''b'']) ''Quick Wins'' = Some [''a'']"
proof -
  have hyps: "headingOf ''Quick Wins'' ''## 2. Quick Wins''"
    "\<forall>t\<in>set [''## Tips'']. headingLike t \<and> \<not> isHeading t"
    "[''## 2. Sustainable Living'', ''b''] = [] \<or>
     isHeading (hd [''## 2. Sustainable Living'', ''b''])"
    "\<forall>t\<in>set [''## 2. Sustainable Living'', ''b'']. \<not> headingOf ''Quick Wins'' t"
    by (simp_all add: headingOf_def isHeading_def heading_examples)
  have earlier: "[''## 1. Quick Wins'', ''a''] = [] @ ''## 1. Quick Wins'' # [''a''] \<and>
    headingOf ''Quick Wins'' ''## 1. Quick Wins'' \<and> ''Quick Wins'' \<in> set categoryNames \<and>
    (\<forall>t\<in>set [''a'']. \<not> isHeading t) \<and> bodyLines [''a''] \<noteq> []"
    by (simp add: headingOf_def isHeading_def heading_examples categoryNames_def bodyLines_def)
  from repeated_heading_without_body [OF hyps, of "[''## 1. Quick Wins'', ''a'']",
      THEN conjunct2, rule_format, OF earlier]
  show ?thesis using hyps earlier by (simp add: bodyLines_def heading_examples)
qed

subsection \<open>Which lines reach a bucket\<close>

text \<open>
  Claim C2. Every line \<open>x\<close> of a final bucket is a body line, its category \<open>c\<close> is one of
  the five names, and \<open>x\<close> stands in the input after a heading whose extracted name is
  \<open>c\<close>, with no heading between the two, so that \<open>c\<close> is the current category at \<open>x\<close>.
  Lines before the first heading of a known category contribute nothing, and neither do
  the lines under a heading whose extracted name is not a known category: the buckets are
  those of the input without them. A body line met while the current category is unset or
  not a known name leaves the whole state as it is.
\<close>

theorem bucketed_only_under_recognized_heading:
  "(\<forall>c b x. bucket (categorize ts) c = Some b \<and> x \<in> set b \<longrightarrow>
      c \<in> set categoryNames \<and> \<not> headingLike x \<and>
      (\<exists>pre h mid post. ts = pre @ h # mid @ x # post \<and> headingOf c h \<and>
         (\<forall>t\<in>set mid. \<not> isHeading t))) \<and>
   ((\<forall>t\<in>set pre. \<forall>c\<in>set categoryNames. \<not> headingOf c t) \<longrightarrow>
      categorize (pre @ ts) = categorize ts) \<and>
   (headingOf u h \<and> u \<notin> set categoryNames \<and> (\<forall>t\<in>set body. \<not> isHeading t) \<longrightarrow>
      categorize (pre @ h # body @ ts) = categorize (pre @ h # ts)) \<and>
   (\<not> headingLike t \<and> \<not> recognized s \<longrightarrow> organize s t = s)"
  using bucket_origin [of ts] categorize_drop_prefix [of pre ts]
    categorize_unknown_heading [of u h body pre ts] organize_dropped [of t s]
  by blast

theorem bucketed_only_under_recognized_heading_witness:
  "bucket (categorize [''stray'', ''## 1. Quick Wins'', ''a'']) ''Quick Wins'' = Some [''a''] \<and>
   ''a'' \<in> set [''a''] \<and>
   (\<exists>pre h mid post. [''stray'', ''## 1. Quick Wins'', ''a''] = pre @ h # mid @ ''a'' # post \<and>
      headingOf ''Quick Wins'' h \<and> (\<forall>t\<in>set mid. \<not> isHeading t)) \<and>
   \<not> headingOf ''Quick Wins'' ''stray'' \<and>
   \<not> headingOf ''Sustainable Living'' ''stray'' \<and>
   \<not> headingOf ''Transportation & Mobility'' ''stray'' \<and>
   \<not> headingOf ''Community & Social Impact'' ''stray'' \<and>
   \<not> headingOf ''Environmental Protection'' ''stray'' \<and>
   categorize ([''stray''] @ [''## 1. Quick Wins'', ''a'']) =
     categorize [''## 1. Quick Wins'', ''a''] \<and>
   headingOf ''Other'' ''## 3. Other'' \<and> ''Other'' \<notin> set categoryNames \<and>
   \<not> isHeading ''b'' \<and>
   categorize ([''stray''] @ ''## 3. Other'' # [''b''] @ [''## 1. Quick Wins'', ''a'']) =
     categorize ([''stray''] @ ''## 3. Other'' # [''## 1. Quick Wins'', ''a'']) \<and>
   \<not> headingLike ''stray'' \<and> \<not> recognized initialState \<and>
   organize initialState ''stray'' = initialState"
proof -
  note inst = bucketed_only_under_recognized_heading
    [of "[''stray'', ''## 1. Quick Wins'', ''a'']" "[''stray'']" "''Other''" "''## 3. Other''"
        "[''b'']" "''stray''" initialState]
  note inst' = bucketed_only_under_recognized_heading
    [of "[''## 1. Quick Wins'', ''a'']" "[''stray'']" "''Other''" "''## 3. Other''"
        "[''b'']" "''stray''" initialState]
  have b: "bucket (categorize [''stray'', ''## 1. Quick Wins'', ''a'']) ''Quick Wins'' =
      Some [''a'']"
    by (simp add: example_stray_line bucket_def)
  have p: "\<forall>t\<in>set [''stray'']. \<forall>c\<in>set categoryNames. \<not> headingOf c t"
    by (simp add: headingOf_def heading_examples)
  have o: "headingOf ''Other'' ''## 3. Other'' \<and> ''Other'' \<notin> set categoryNames \<and>
      (\<forall>t\<in>set [''b'']. \<not> isHeading t)"
    by (simp add: headingOf_def isHeading_def headingLike_def startsWith_def extract_other
          categoryNames_def)
  have n: "\<not> headingLike ''stray''" "\<not> recognized initialState"
    by (simp_all add: heading_examples recognized_def initialState_def)
  from inst [THEN conjunct1, rule_format, of "''Quick Wins''" "[''a'']" "''a''"] b
  have 1: "\<exists>pre h mid post. [''stray'', ''## 1. Quick Wins'', ''a''] = pre @ h # mid @ ''a'' # post \<and>
      headingOf ''Quick Wins'' h \<and> (\<forall>t\<in>set mid. \<not> isHeading t)" by simp
  from inst' [THEN conjunct2, THEN conjunct1, THEN mp, OF p]
  have 2: "categorize ([''stray''] @ [''## 1. Quick Wins'', ''a'']) =
     categorize [''## 1. Quick Wins'', ''a'']" .
  from inst' [THEN conjunct2, THEN conjunct2, THEN conjunct1, THEN mp, OF o]
  have 3: "categorize ([''stray''] @ ''## 3. Other'' # [''b''] @ [''## 1. Quick Wins'', ''a'']) =
     categorize ([''stray''] @ ''## 3. Other'' # [''## 1. Quick Wins'', ''a''])" .
  from inst [THEN conjunct2, THEN conjunct2, THEN conjunct2, rule_format] n
  have 4: "organize initialState ''stray'' = initialState" by simp
  from b 1 2 3 4 n o show ?thesis
    by (simp add: headingOf_def heading_examples)
qed

text \<open>
  Claim C7. The buckets start empty. Every final bucket is a subsequence of the input:
  its lines are lines of the input, unmodified and in their order. Processing one more
  line \<open>t\<close> leaves a bucket as it is or appends \<open>t\<close> to it, with one exception, in
  which the bucket becomes \<open>[t]\<close>: the category of the bucket is the current one, and
  since the heading that made it current no body line was met.
\<close>

theorem buckets_are_subsequences:
  "(\<forall>e\<in>set initialCategories. snd e = []) \<and>
   (\<forall>c b. bucket (categorize ts) c = Some b \<longrightarrow> subseq b ts) \<and>
   (\<forall>c b b'. bucket (categorize ts) c = Some b \<and>
        bucket (categorize (ts @ [t])) c = Some b' \<longrightarrow>
      b' = b \<or> b' = b @ [t] \<or>
      (b' = [t] \<and>
       (\<exists>pre h body. ts = pre @ h # body \<and> headingOf c h \<and>
          (\<forall>u\<in>set body. \<not> isHeading u) \<and> bodyLines body = [])))"
proof -
  have "\<forall>e\<in>set initialCategories. snd e = []" by (simp add: initialCategories_def)
  then show ?thesis using bucket_subseq [of ts] bucket_step [of ts _ _ t] by blast
qed

theorem buckets_are_subsequences_witness:
  "bucket (categorize [''## 1. Quick Wins'', ''a'', ''## Tips'']) ''Quick Wins'' = Some [''a''] \<and>
   bucket (categorize ([''## 1. Quick Wins'', ''a'', ''## Tips''] @ [''b''])) ''Quick Wins'' =
     Some [''a'', ''b''] \<and>
   subseq [''a'', ''b''] ([''## 1. Quick Wins'', ''a'', ''## Tips''] @ [''b'']) \<and>
   bucket (categorize [''## 1. Quick Wins'', ''a'', ''## 2. Quick Wins'']) ''Quick Wins'' =
     Some [''a''] \<and>
   bucket (categorize ([''## 1. Quick Wins'', ''a'', ''## 2. Quick Wins''] @ [''b'']))
     ''Quick Wins'' = Some [''b''] \<and>
   ([''b''] = [''a''] \<or> [''b''] = [''a''] @ [''b''] \<or>
    ([''b''] = [''b''] \<and>
     (\<exists>pre h body. [''## 1. Quick Wins'', ''a'', ''## 2. Quick Wins''] = pre @ h # body \<and>
        headingOf ''Quick Wins'' h \<and> (\<forall>u\<in>set body. \<not> isHeading u) \<and> bodyLines body = [])))"
proof -
  have e1: "bucket (categorize [''## 1. Quick Wins'', ''a'', ''## Tips'']) ''Quick Wins'' =
      Some [''a'']"
    by (simp add: categorize_def initialState_def initialCategories_def recognized_def keys_def
          organize_examples bucket_def)
  have e2: "bucket (categorize ([''## 1. Quick Wins'', ''a'', ''## Tips''] @ [''b'']))
      ''Quick Wins'' = Some [''a'', ''b'']"
    by (simp add: example_ignored_heading bucket_def)
  have e3: "bucket (categorize [''## 1. Quick Wins'', ''a'', ''## 2. Quick Wins''])
      ''Quick Wins'' = Some [''a'']"
    by (simp add: example_repeated_heading bucket_def)
  have e4: "bucket (categorize ([''## 1. Quick Wins'', ''a'', ''## 2. Quick Wins''] @ [''b'']))
      ''Quick Wins'' = Some [''b'']"
    by (simp add: example_repeated_heading_body bucket_def)
  from buckets_are_subsequences
    [of "[''## 1. Quick Wins'', ''a'', ''## Tips''] @ [''b'']" "''b''",
     THEN conjunct2, THEN conjunct1, rule_format, OF e2]
  have 1: "subseq [''a'', ''b''] ([''## 1. Quick Wins'', ''a'', ''## Tips''] @ [''b''])" .
  from buckets_are_subsequences
    [of "[''## 1. Quick Wins'', ''a'', ''## 2. Quick Wins'']" "''b''",
     THEN conjunct2, THEN conjunct2, rule_format, OF conjI, OF e3 e4]
  have 2: "[''b''] = [''a''] \<or> [''b''] = [''a''] @ [''b''] \<or>
    ([''b''] = [''b''] \<and>
     (\<exists>pre h body. [''## 1. Quick Wins'', ''a'', ''## 2. Quick Wins''] = pre @ h # body \<and>
        headingOf ''Quick Wins'' h \<and> (\<forall>u\<in>set body. \<not> isHeading u) \<and> bodyLines body = []))" .
  from e1 e2 1 e3 e4 2 show ?thesis by (intro conjI)
qed

text \<open>
  Claim C8. No line of a final bucket starts with the heading marker, and a line that
  starts with the heading marker leaves all buckets as they are. When such a line does not
  match the pattern, it leaves the whole state as it is, the current category included:
  the buckets are those of the input without this line, so the body lines after it are
  still accumulated under the category that was current before it.
\<close>

theorem heading_like_never_bucketed:
  "(\<forall>c b x. bucket (categorize ts) c = Some b \<and> x \<in> set b \<longrightarrow> \<not> headingLike x) \<and>
   (headingLike t \<longrightarrow> categories (organize s t) = categories s) \<and>
   (headingLike t \<and> \<not> isHeading t \<longrightarrow>
      organize s t = s \<and> categorize (pre @ t # post) = categorize (pre @ post))"
proof -
  have 1: "\<forall>c b x. bucket (categorize ts) c = Some b \<and> x \<in> set b \<longrightarrow> \<not> headingLike x"
    using bucket_origin [of ts] by blast
  have 2: "categories (organize s t) = categories s" if "headingLike t"
    using that organize_heading [of t _ s] organize_ignored [of t s]
    by (cases "extractCategory t") auto
  have 3: "organize s t = s" if "headingLike t" "\<not> isHeading t" for s
    using that by (simp add: isHeading_def organize_ignored)
  have 4: "categorize (pre @ t # post) = categorize (pre @ post)"
    if "headingLike t" "\<not> isHeading t"
    using 3 [OF that] by (simp add: categorize_def)
  from 1 2 3 4 show ?thesis by blast
qed

theorem heading_like_never_bucketed_witness:
  "bucket (categorize [''## 1. Quick Wins'', ''a'', ''## Tips'', ''b'']) ''Quick Wins'' =
     Some [''a'', ''b''] \<and>
   \<not> headingLike ''a'' \<and> \<not> headingLike ''b'' \<and>
   headingLike ''## Tips'' \<and> \<not> isHeading ''## Tips'' \<and>
   categories (organize initialState ''## Tips'') = categories initialState \<and>
   organize initialState ''## Tips'' = initialState \<and>
   categorize ([''## 1. Quick Wins'', ''a''] @ ''## Tips'' # [''b'']) =
     categorize ([''## 1. Quick Wins'', ''a''] @ [''b''])"
proof -
  note inst = heading_like_never_bucketed
    [of "[''## 1. Quick Wins'', ''a'', ''## Tips'', ''b'']" "''## Tips''" initialState
        "[''## 1. Quick Wins'', ''a'']" "[''b'']"]
  have e: "bucket (categorize [''## 1. Quick Wins'', ''a'', ''## Tips'', ''b'']) ''Quick Wins'' =
     Some [''a'', ''b'']"
    by (simp add: example_ignored_heading bucket_def)
  have h: "headingLike ''## Tips'' \<and> \<not> isHeading ''## Tips''"
    by (simp add: isHeading_def heading_examples)
  from inst [THEN conjunct1, rule_format, of "''Quick Wins''" "[''a'', ''b'']"] e
  have 1: "\<not> headingLike ''a''" "\<not> headingLike ''b''" by simp_all
  from inst [THEN conjunct2, THEN conjunct1] h
  have 2: "categories (organize initialState ''## Tips'') = categories initialState" by simp
  from inst [THEN conjunct2, THEN conjunct2, THEN mp, OF h]
  have 3: "organize initialState ''## Tips'' = initialState \<and>
     categorize ([''## 1. Quick Wins'', ''a''] @ ''## Tips'' # [''b'']) =
     categorize ([''## 1. Quick Wins'', ''a''] @ [''b''])" .
  from e 1 h 2 3 show ?thesis by (intro conjI) simp_all
qed

subsection \<open>The rendered cards\<close>

text \<open>
  Claim C6. The titles of the rendered cards are exactly the categories whose final bucket
  is not empty, each once; a category whose bucket is empty has no card.
\<close>

theorem empty_bucket_not_rendered:
  "cardTitle ` set (renderedCards ts) =
     {c. \<exists>b. bucket (categorize ts) c = Some b \<and> b \<noteq> []} \<and>
   distinct (map cardTitle (renderedCards ts)) \<and>
   (bucket (categorize ts) c = Some [] \<longrightarrow> c \<notin> cardTitle ` set (renderedCards ts))"
proof -
  have t: "map cardTitle (renderedCards ts) =
      filter (\<lambda>c. \<exists>b. bucket (categorize ts) c = Some b \<and> b \<noteq> []) categoryNames"
    by (rule rendered_titles)
  have "c \<in> set categoryNames" if "bucket (categorize ts) c = Some b" for c b
    using that by (rule bucket_key)
  then have 1: "set (map cardTitle (renderedCards ts)) =
      {c. \<exists>b. bucket (categorize ts) c = Some b \<and> b \<noteq> []}"
    unfolding t by auto
  have 2: "distinct (map cardTitle (renderedCards ts))"
    unfolding t using distinct_categoryNames by simp
  from 1 have 3: "bucket (categorize ts) c = Some [] \<longrightarrow>
      c \<notin> set (map cardTitle (renderedCards ts))" by auto
  from 1 2 3 show ?thesis by simp
qed

theorem empty_bucket_not_rendered_witness:
  "bucket (categorize [''## 1. Quick Wins'', ''a'', ''## 2. Quick Wins''])
     ''Sustainable Living'' = Some [] \<and>
   ''Sustainable Living'' \<notin>
     cardTitle ` set (renderedCards [''## 1. Quick Wins'', ''a'', ''## 2. Quick Wins''])"
  using empty_bucket_not_rendered
    [of "[''## 1. Quick Wins'', ''a'', ''## 2. Quick Wins'']" "''Sustainable Living''"]
  by (simp add: example_repeated_heading bucket_def)

text \<open>
  Claim C10. The titles of the rendered cards, in the order of the page, are the names
  Quick Wins, Sustainable Living, Transportation & Mobility, Community & Social Impact,
  Environmental Protection, in this order, without those whose bucket is empty. For
  instance, when the heading of Environmental Protection comes before that of Quick Wins
  in the input, the card of Quick Wins still comes first.
\<close>

theorem cards_in_declaration_order:
  "map cardTitle (renderedCards ts) =
     filter (\<lambda>c. \<exists>b. bucket (categorize ts) c = Some b \<and> b \<noteq> [])
       [''Quick Wins'', ''Sustainable Living'', ''Transportation & Mobility'',
        ''Community & Social Impact'', ''Environmental Protection''] \<and>
   map cardTitle (renderedCards
       [''## 1. Environmental Protection'', ''b'', ''## 2. Quick Wins'', ''a'']) =
     [''Quick Wins'', ''Environmental Protection'']"
proof -
  have g: "map cardTitle (renderedCards ts) =
     filter (\<lambda>c. \<exists>b. bucket (categorize ts) c = Some b \<and> b \<noteq> [])
       [''Quick Wins'', ''Sustainable Living'', ''Transportation & Mobility'',
        ''Community & Social Impact'', ''Environmental Protection'']" for ts
    using rendered_titles [of ts] by (simp only: categoryNames_def)
  have "map cardTitle (renderedCards
       [''## 1. Environmental Protection'', ''b'', ''## 2. Quick Wins'', ''a'']) =
     [''Quick Wins'', ''Environmental Protection'']"
    unfolding g by (simp add: example_reverse_order bucket_def)
  with g show ?thesis by simp
qed

section \<open>Properties of the request coordinator\<close>

text \<open>
  Claim C4. When the request fails, that is when the promise of \<open>axios.post\<close> is rejected,
  whatever the reason, or when the response has no data to read the tips from, the run of
  \<open>handleSubmit\<close> ends with the fixed error message set, with the list of tips empty
  (it was cleared at the start and is not restored), and with \<open>loading\<close> false, so that
  the submit button is enabled again. The final state of the page is the same for every
  reason, and exactly one request was issued: there is no retry.
\<close>

theorem failed_request:
  "error (finalPage (handleSubmit p (Rejects err))) =
     Some ''Failed to generate tips. Please try again.'' \<and>
   tips (finalPage (handleSubmit p (Rejects err))) = [] \<and>
   loading (finalPage (handleSubmit p (Rejects err))) = False \<and>
   \<not> submitDisabled (finalPage (handleSubmit p (Rejects err))) \<and>
   finalPage (handleSubmit p (Rejects err')) = finalPage (handleSubmit p (Rejects err)) \<and>
   finalPage (handleSubmit p ResolvesWithoutData) = finalPage (handleSubmit p (Rejects err)) \<and>
   issued (handleSubmit p (Rejects err)) =
     [\<lparr>url = ''http://localhost:5000/api/tips'', bodyLocation = location p,
       bodyHabits = habits p\<rparr>] \<and>
   issued (handleSubmit p ResolvesWithoutData) = issued (handleSubmit p (Rejects err))"
  by (simp add: handleSubmit_def submitDisabled_def Let_def)

end
